theory Spec2Isabelle
  imports Main "HOL-Library.Multiset"
begin

section \<open>The create-zip route: data model\<close>

text \<open>
  The development embeds \<^verbatim>\<open>my-app/app/api/create-zip/route.js\<close>. The module keeps a
  session cache in two module variables, talks to an upstream booking system with
  \<^verbatim>\<open>fetch\<close>, sleeps with \<^verbatim>\<open>delay\<close> and writes to the console. All of that is made
  explicit: a \<open>state\<close> record holds the two cache variables, the clock read by
  \<^verbatim>\<open>Date.now()\<close>, the replies the upstream will give (consumed one per \<^verbatim>\<open>fetch\<close> call,
  each with the time it takes to arrive) and the trace of every effect the code has
  performed so far. The functions of the module are given first as they read, one call
  running from its first line to its last; the tasks of a batch, which run concurrently,
  are then given as the engine runs them.
\<close>

type_synonym buffer = string

text \<open>A thrown JavaScript error: its class and its \<^verbatim>\<open>message\<close>.\<close>

datatype js_error = Error string | TypeError string | SyntaxError string

fun message :: "js_error \<Rightarrow> string" where
  "message (Error m) = m"
| "message (TypeError m) = m"
| "message (SyntaxError m) = m"

text \<open>
  A decoded JSON value. A number is held as JavaScript prints it (\<^verbatim>\<open>String(n)\<close>), which
  is all the route observes of it: both zeros print as \<^verbatim>\<open>0\<close> and are the falsy numbers.
  An object is the list of its own properties.
\<close>

datatype json =
    JNull
  | JBool bool
  | JNum string
  | JStr string
  | JArr "json list"
  | JObj "(string \<times> json) list"

text \<open>What \<^verbatim>\<open>fetch\<close> resolves to, reduced to the parts the route reads.\<close>

record http_response =
  status :: nat
  statusText :: string
  getSetCookie :: "string list"
  location :: "string option"
  arrayBuffer :: "js_error + buffer"

datatype fetch_reply = Rejects js_error | Resolves http_response

datatype request =
    Login_post string string string string
  | Pdf_get string string bool

text \<open>
  \<open>Login_post url cmp_code username password\<close> is the authentication POST;
  \<open>Pdf_get url cookie manual\<close> is the document GET with its \<^verbatim>\<open>Cookie\<close> header, and
  \<open>manual\<close> tells whether \<^verbatim>\<open>redirect: 'manual'\<close> was passed.
\<close>

datatype console =
    Log_logging_in string string
  | Log_login_status nat
  | Log_received_cookies nat
  | Log_login_successful
  | Log_retry nat nat string string nat
  | Log_session_expired
  | Log_fetched string string nat
  | Err_attempt_failed nat nat string string string
  | Err_validation string
  | Log_processing nat
  | Log_batch nat nat
  | Log_generating string string nat nat
  | Err_gave_up string string string
  | Log_complete nat nat nat
  | Err_create_zip string

datatype event = Delay nat | Fetch request | Console console

record env =
  LUCEE_URL :: "string option"
  PDF_USERNAME :: "string option"
  PDF_PASSWORD :: "string option"
  PDF_COMPANY_CODE :: "string option"

record state =
  sessionCookies :: "string option"
  sessionExpiry :: "nat option"
  clock :: nat
  network :: "(nat \<times> fetch_reply) list"
  trace :: "event list"
  process_env :: env

section \<open>Primitives of the runtime\<close>

definition emit :: "event \<Rightarrow> state \<Rightarrow> state" where
  "emit e st = st\<lparr>trace := trace st @ [e]\<rparr>"

text \<open>\<^verbatim>\<open>await delay(ms)\<close>: the clock moves on by \<open>ms\<close>.\<close>

definition delay :: "nat \<Rightarrow> state \<Rightarrow> state" where
  "delay ms st = emit (Delay ms) (st\<lparr>clock := clock st + ms\<rparr>)"

text \<open>
  \<^verbatim>\<open>await fetch(...)\<close>: the request is recorded and the next scripted reply is consumed,
  together with the time it took. When the script has run out the upstream is taken to be
  unreachable and the call rejects, as \<^verbatim>\<open>fetch\<close> does on a network failure. A request sent
  without \<^verbatim>\<open>redirect: 'manual'\<close> follows redirects; its reply stands for the final response.
\<close>

definition fetch :: "request \<Rightarrow> state \<Rightarrow> fetch_reply \<times> state" where
  "fetch req st =
     (case network st of
        [] \<Rightarrow> (Rejects (TypeError ''fetch failed''), emit (Fetch req) st)
      | (ms, reply) # rest \<Rightarrow>
          (reply, emit (Fetch req) (st\<lparr>clock := clock st + ms, network := rest\<rparr>)))"

text \<open>\<^verbatim>\<open>process.env.X || fallback\<close>: an unset or empty variable gives the fallback.\<close>

definition or_else :: "string option \<Rightarrow> string \<Rightarrow> string" where
  "or_else v fallback = (case v of None \<Rightarrow> fallback | Some s \<Rightarrow> if s = [] then fallback else s)"

text \<open>The decimal digit \<open>d < 10\<close> as a character.\<close>

definition digit_char :: "nat \<Rightarrow> char" where
  "digit_char d = ''0123456789'' ! d"

text \<open>\<^verbatim>\<open>String(n)\<close> of a natural number, as template literals and \<^verbatim>\<open>toString\<close> print it.\<close>

function show_nat :: "nat \<Rightarrow> string" where
  "show_nat n = (if n < 10 then [digit_char n] else show_nat (n div 10) @ [digit_char (n mod 10)])"
  by pat_completeness auto
termination
  by (relation "measure id") auto

declare show_nat.simps [simp del]

text \<open>\<^verbatim>\<open>Array.prototype.join\<close> on an array of strings.\<close>

fun join :: "string \<Rightarrow> string list \<Rightarrow> string" where
  "join sep [] = []"
| "join sep [x] = x"
| "join sep (x # y # ys) = x @ sep @ join sep (y # ys)"

text \<open>\<^verbatim>\<open>String.prototype.split\<close> with a one-character separator.\<close>

fun split_str :: "char \<Rightarrow> string \<Rightarrow> string list" where
  "split_str sep [] = [[]]"
| "split_str sep (c # cs) =
     (if c = sep then [] # split_str sep cs
      else (case split_str sep cs of [] \<Rightarrow> [[c]] | w # ws \<Rightarrow> (c # w) # ws))"

text \<open>\<^verbatim>\<open>String.prototype.includes\<close>.\<close>

fun includes_str :: "string \<Rightarrow> string \<Rightarrow> bool" where
  "includes_str [] sub = (sub = [])"
| "includes_str (c # cs) sub = (take (length sub) (c # cs) = sub \<or> includes_str cs sub)"

text \<open>
  How a template literal prints a JSON value (\<^verbatim>\<open>ToString\<close>): an array prints its elements
  joined by commas with \<^verbatim>\<open>null\<close> elements empty, an object prints as
  \<^verbatim>\<open>[object Object]\<close>.
\<close>

fun to_string :: "json \<Rightarrow> string" where
  "to_string JNull = ''null''"
| "to_string (JBool b) = (if b then ''true'' else ''false'')"
| "to_string (JNum s) = s"
| "to_string (JStr s) = s"
| "to_string (JArr xs) = join '','' (map (\<lambda>x. if x = JNull then [] else to_string x) xs)"
| "to_string (JObj kvs) = ''[object Object]''"

text \<open>Truthiness of a decoded value (\<^verbatim>\<open>undefined\<close> is handled where a property is read).\<close>

fun truthy :: "json \<Rightarrow> bool" where
  "truthy JNull = False"
| "truthy (JBool b) = b"
| "truthy (JNum s) = (s \<noteq> ''0'')"
| "truthy (JStr s) = (s \<noteq> [])"
| "truthy (JArr xs) = True"
| "truthy (JObj kvs) = True"

text \<open>
  Reading property \<open>k\<close> of a decoded value: \<^verbatim>\<open>null\<close> throws a \<^verbatim>\<open>TypeError\<close>, an object
  gives its property or \<^verbatim>\<open>undefined\<close>, and every other value gives \<^verbatim>\<open>undefined\<close> for the
  three names the route reads (none of them is a built-in property). The wording of the
  \<^verbatim>\<open>TypeError\<close> is the engine's and is not reproduced to the letter.
\<close>

fun get_prop :: "json \<Rightarrow> string \<Rightarrow> js_error + json option" where
  "get_prop JNull k = Inl (TypeError (''Cannot read properties of null (reading '' @ k @ '')''))"
| "get_prop (JObj kvs) k = Inr (map_of kvs k)"
| "get_prop v k = Inr None"

section \<open>PDF signature\<close>

definition isPDF :: "buffer \<Rightarrow> bool" where
  "isPDF buffer = (if length buffer < 4 then False else take 4 buffer = ''%PDF'')"

section \<open>Session manager\<close>

definition baseUrl :: "state \<Rightarrow> string" where
  "baseUrl st = or_else (LUCEE_URL (process_env st)) ''https://hotel.webhotelier.localhost''"

definition cookie_header :: "string list \<Rightarrow> string" where
  "cookie_header cookies =
     join ''; '' (map (\<lambda>c. case split_str CHR '';'' c of [] \<Rightarrow> [] | w # ws \<Rightarrow> w) cookies)"

definition login :: "state \<Rightarrow> (js_error + string) \<times> state" where
  "login st =
     (let username = or_else (PDF_USERNAME (process_env st)) [];
          password = or_else (PDF_PASSWORD (process_env st)) [];
          companyCode = or_else (PDF_COMPANY_CODE (process_env st)) [];
          st1 = emit (Console (Log_logging_in username (baseUrl st))) st
      in case fetch (Login_post (baseUrl st @ ''/login/login'') companyCode username password) st1 of
           (Rejects err, st2) \<Rightarrow> (Inl err, st2)
         | (Resolves loginResponse, st2) \<Rightarrow>
             (let cookies = getSetCookie loginResponse;
                  st3 = emit (Console (Log_login_status (status loginResponse))) st2;
                  st4 = emit (Console (Log_received_cookies (length cookies))) st3
              in if length cookies = 0
                 then (Inl (Error ''Login failed - no cookies received''), st4)
                 else (let st5 = st4\<lparr>sessionCookies := Some (cookie_header cookies)\<rparr>;
                           st6 = st5\<lparr>sessionExpiry := Some (clock st5 + 30 * 60 * 1000)\<rparr>;
                           st7 = emit (Console Log_login_successful) st6
                       in (Inr (cookie_header cookies), st7))))"

text \<open>
  The cache test is JavaScript truthiness: \<^verbatim>\<open>sessionCookies\<close> must be a non-empty
  string and \<^verbatim>\<open>sessionExpiry\<close> a non-zero number.
\<close>

definition getSessionCookies :: "state \<Rightarrow> (js_error + string) \<times> state" where
  "getSessionCookies st =
     (case sessionCookies st of
        None \<Rightarrow> login st
      | Some cookies \<Rightarrow>
          (case sessionExpiry st of
             None \<Rightarrow> login st
           | Some expiry \<Rightarrow>
               if cookies \<noteq> [] \<and> expiry \<noteq> 0 \<and> clock st < expiry
               then (Inr cookies, st)
               else login st))"

section \<open>Document fetcher\<close>

definition ok :: "http_response \<Rightarrow> bool" where
  "ok response = (200 \<le> status response \<and> status response \<le> 299)"

definition pdfUrl :: "state \<Rightarrow> json \<Rightarrow> json \<Rightarrow> string" where
  "pdfUrl st htlCode resId =
     baseUrl st @ ''/res/print.cfm?htl_code='' @ to_string htlCode @ ''&res_id='' @ to_string resId
       @ ''&download''"

definition backoffDelay :: "nat \<Rightarrow> nat" where
  "backoffDelay attempt = min (1000 * 2 ^ (attempt - 1)) 5000"

definition http_error :: "http_response \<Rightarrow> js_error" where
  "http_error response = Error (''HTTP '' @ show_nat (status response) @ '': '' @ statusText response)"

text \<open>\<^verbatim>\<open>location && location.includes('forward=')\<close> on the header, \<open>None\<close> when it is absent.\<close>

definition login_redirect :: "string option \<Rightarrow> bool" where
  "login_redirect loc = (case loc of None \<Rightarrow> False | Some l \<Rightarrow> l \<noteq> [] \<and> includes_str l ''forward='')"

text \<open>
  Reading and checking the body. The source has these lines twice, once for the first
  response and once for the response of the retry after a re-login.
\<close>

definition read_pdf :: "json \<Rightarrow> json \<Rightarrow> http_response \<Rightarrow> state \<Rightarrow> (js_error + buffer) \<times> state" where
  "read_pdf htlCode resId response st =
     (case arrayBuffer response of
        Inl err \<Rightarrow> (Inl err, st)
      | Inr buffer \<Rightarrow>
          if \<not> isPDF buffer
          then (Inl (Error ''Response is not a valid PDF (likely HTML error page)''), st)
          else (Inr buffer,
                emit (Console (Log_fetched (to_string htlCode) (to_string resId) (length buffer))) st))"

text \<open>The \<^verbatim>\<open>if (attempt > 1)\<close> block that opens an attempt: the log line and the backoff sleep.\<close>

definition backoff_step :: "json \<Rightarrow> json \<Rightarrow> nat \<Rightarrow> nat \<Rightarrow> state \<Rightarrow> state" where
  "backoff_step htlCode resId maxRetries attempt st =
     (if attempt > 1
      then delay (backoffDelay attempt)
             (emit (Console (Log_retry attempt maxRetries (to_string htlCode) (to_string resId)
                (backoffDelay attempt))) st)
      else st)"

text \<open>The body of the \<^verbatim>\<open>try\<close> block of one attempt: \<open>Inl\<close> is what it throws.\<close>

definition try_attempt :: "json \<Rightarrow> json \<Rightarrow> nat \<Rightarrow> nat \<Rightarrow> state \<Rightarrow> (js_error + buffer) \<times> state" where
  "try_attempt htlCode resId maxRetries attempt st =
     (let st1 = backoff_step htlCode resId maxRetries attempt st
      in case getSessionCookies st1 of
           (Inl err, st2) \<Rightarrow> (Inl err, st2)
         | (Inr cookies, st2) \<Rightarrow>
             (case fetch (Pdf_get (pdfUrl st htlCode resId) cookies True) st2 of
                (Rejects err, st3) \<Rightarrow> (Inl err, st3)
              | (Resolves response, st3) \<Rightarrow>
                  if status response = 302 \<and> login_redirect (location response)
                  then (let st4 = emit (Console Log_session_expired) st3;
                            st5 = st4\<lparr>sessionCookies := None\<rparr>
                        in case getSessionCookies st5 of
                             (Inl err, st6) \<Rightarrow> (Inl err, st6)
                           | (Inr newCookies, st6) \<Rightarrow>
                               (case fetch (Pdf_get (pdfUrl st htlCode resId) newCookies False) st6 of
                                  (Rejects err, st7) \<Rightarrow> (Inl err, st7)
                                | (Resolves retryResponse, st7) \<Rightarrow>
                                    if \<not> ok retryResponse
                                    then (Inl (http_error retryResponse), st7)
                                    else read_pdf htlCode resId retryResponse st7))
                  else if \<not> ok response \<and> status response \<noteq> 302
                  then (Inl (http_error response), st3)
                  else read_pdf htlCode resId response st3))"

text \<open>
  The \<^verbatim>\<open>for\<close> loop over the attempts with its \<^verbatim>\<open>catch\<close>. Falling out of the loop
  (only when \<open>maxRetries = 0\<close>) returns \<^verbatim>\<open>undefined\<close>, here \<open>Inr None\<close>.
\<close>

function attempt_loop :: "json \<Rightarrow> json \<Rightarrow> nat \<Rightarrow> nat \<Rightarrow> state \<Rightarrow> (js_error + buffer option) \<times> state" where
  "attempt_loop htlCode resId maxRetries attempt st =
     (if attempt \<le> maxRetries
      then (case try_attempt htlCode resId maxRetries attempt st of
              (Inr buffer, st1) \<Rightarrow> (Inr (Some buffer), st1)
            | (Inl err, st1) \<Rightarrow>
                (let st2 = emit (Console (Err_attempt_failed attempt maxRetries (to_string htlCode)
                             (to_string resId) (message err))) st1
                 in if attempt = maxRetries
                    then (Inl (Error (''Failed after '' @ show_nat maxRetries @ '' attempts: ''
                                 @ message err)), st2)
                    else attempt_loop htlCode resId maxRetries (attempt + 1) st2))
      else (Inr None, st))"
  by pat_completeness auto
termination
  by (relation "measure (\<lambda>(htlCode, resId, maxRetries, attempt, st). Suc maxRetries - attempt)") auto

declare attempt_loop.simps [simp del]

definition generatePdfForReservation :: "json \<Rightarrow> json \<Rightarrow> nat \<Rightarrow> state \<Rightarrow> (js_error + buffer option) \<times> state" where
  "generatePdfForReservation htlCode resId maxRetries st = attempt_loop htlCode resId maxRetries 1 st"

section \<open>Request handler\<close>

record reservation =
  htl_code :: json
  res_id :: json

record pdf_result = reservation +
  filename :: string
  blob :: "buffer option"

text \<open>
  Modelled from the spec: the archive library (JSZip) is not part of the sources; the spec
  describes it as accepting named byte buffers and returning one archive. An archive is
  the list of the named buffers handed to \<^verbatim>\<open>zip.file\<close>, in call order; encoding it
  (\<^verbatim>\<open>generateAsync\<close>) is taken to succeed.
\<close>

type_synonym archive = "(string \<times> buffer option) list"

definition zip_file :: "string \<Rightarrow> buffer option \<Rightarrow> archive \<Rightarrow> archive" where
  "zip_file name data z = z @ [(name, data)]"

text \<open>
  \<open>NextResponse_json m s\<close> is \<^verbatim>\<open>NextResponse.json({ error: m }, { status: s })\<close>;
  \<open>NextResponse_zip body s headers\<close> is \<^verbatim>\<open>new NextResponse(zipBuffer, { status: s, headers })\<close>.
\<close>

datatype response =
    NextResponse_json string nat
  | NextResponse_zip archive nat "(string \<times> string) list"

definition invalid_structure :: js_error where
  "invalid_structure = Error ''Invalid reservation object structure''"

text \<open>The callback of \<^verbatim>\<open>reservationIds.map\<close>; \<open>Inl\<close> is what it throws.\<close>

definition validate_item :: "json \<Rightarrow> js_error + reservation" where
  "validate_item item =
     (case get_prop item ''htl_code'' of
        Inl err \<Rightarrow> Inl err
      | Inr None \<Rightarrow> Inl invalid_structure
      | Inr (Some h) \<Rightarrow>
          if \<not> truthy h then Inl invalid_structure
          else (case get_prop item ''res_id'' of
                  Inl err \<Rightarrow> Inl err
                | Inr None \<Rightarrow> Inl invalid_structure
                | Inr (Some r) \<Rightarrow>
                    if \<not> truthy r then Inl invalid_structure
                    else Inr \<lparr>htl_code = h, res_id = r\<rparr>))"

fun validate_all :: "json list \<Rightarrow> js_error + reservation list" where
  "validate_all [] = Inr []"
| "validate_all (item # items) =
     (case validate_item item of
        Inl err \<Rightarrow> Inl err
      | Inr r \<Rightarrow> (case validate_all items of Inl err \<Rightarrow> Inl err | Inr rs \<Rightarrow> Inr (r # rs)))"

subsection \<open>The tasks of a batch\<close>

text \<open>
  \<^verbatim>\<open>batch.map(async ...)\<close> starts one task for every reservation of the batch and
  \<^verbatim>\<open>Promise.all\<close> waits for all of them, so the calls of \<^verbatim>\<open>generatePdfForReservation\<close> of
  one batch are in flight together and share the session cache, the clock and the upstream.
  An async function runs without interruption up to its next \<^verbatim>\<open>await\<close>; there it is
  suspended until what it awaits has arrived, and other tasks run in between. The callback
  and the functions it calls are therefore given once more, cut at their \<^verbatim>\<open>await\<close>
  expressions. The two forms agree on a task that nothing interrupts: a batch of one
  reservation is the callback with the direct \<^verbatim>\<open>generatePdfForReservation\<close> above
  (lemma \<open>batchPromises_single\<close>).

  A suspended task is in one of the following phases, each carrying the loop variable
  \<^verbatim>\<open>attempt\<close>:

  \<^item> \<open>Backing_off\<close>: at \<^verbatim>\<open>await delay(backoffDelay)\<close>;
  \<^item> \<open>Session_cached\<close>: at the first \<^verbatim>\<open>await getSessionCookies()\<close>, which has returned the
    cached header (the task goes on in the next microtask);
  \<^item> \<open>Logging_in\<close>: at the first \<^verbatim>\<open>await getSessionCookies()\<close>, inside \<^verbatim>\<open>login\<close> at
    its \<^verbatim>\<open>await fetch\<close>;
  \<^item> \<open>Fetching\<close>: at \<^verbatim>\<open>await fetch(pdfUrl, ...)\<close> with \<^verbatim>\<open>redirect: 'manual'\<close>;
  \<^item> \<open>Logging_in_again\<close>: after a login redirect, at \<^verbatim>\<open>await getSessionCookies()\<close>,
    inside \<^verbatim>\<open>login\<close> at its \<^verbatim>\<open>await fetch\<close>;
  \<^item> \<open>Retrying\<close>: at the \<^verbatim>\<open>await fetch(pdfUrl, ...)\<close> of the retry.

  A phase that waits for the upstream carries the reply that is on its way. The body of a
  response is taken to arrive together with the response, so
  \<^verbatim>\<open>await response.arrayBuffer()\<close> does not suspend the task.
\<close>

datatype phase =
    Backing_off nat
  | Session_cached nat string
  | Logging_in nat fetch_reply
  | Fetching nat fetch_reply
  | Logging_in_again nat fetch_reply
  | Retrying nat fetch_reply

text \<open>
  Where a task stands when it hands control back: suspended until the time \<open>due\<close> in a
  phase, or settled with the value of its promise (\<open>None\<close> is \<^verbatim>\<open>null\<close>).
\<close>

datatype outcome = Suspended nat phase | Settled "pdf_result option"

text \<open>
  The local variables of a task: its index in the batch, the reservation, and
  \<^verbatim>\<open>pdfUrl\<close>, which \<^verbatim>\<open>generatePdfForReservation\<close> computes on entry.
\<close>

record task =
  place :: nat
  booking :: reservation
  url :: string

text \<open>
  Calling \<^verbatim>\<open>fetch\<close>: the request goes out at once and takes the next scripted reply, which
  arrives after the time scripted with it. The clock is not moved: the caller is suspended,
  and \<open>awake\<close> sets the clock when it is resumed.
\<close>

definition send :: "request \<Rightarrow> state \<Rightarrow> (nat \<times> fetch_reply) \<times> state" where
  "send req st =
     (case network st of
        [] \<Rightarrow> ((clock st, Rejects (TypeError ''fetch failed'')), emit (Fetch req) st)
      | (ms, reply) # rest \<Rightarrow> ((clock st + ms, reply), emit (Fetch req) (st\<lparr>network := rest\<rparr>)))"

definition awake :: "nat \<Rightarrow> state \<Rightarrow> state" where
  "awake due st = st\<lparr>clock := max (clock st) due\<rparr>"

text \<open>\<^verbatim>\<open>login\<close> up to its \<^verbatim>\<open>await fetch\<close>, and from the reply on.\<close>

definition login_send :: "state \<Rightarrow> (nat \<times> fetch_reply) \<times> state" where
  "login_send st =
     (let username = or_else (PDF_USERNAME (process_env st)) [];
          password = or_else (PDF_PASSWORD (process_env st)) [];
          companyCode = or_else (PDF_COMPANY_CODE (process_env st)) [];
          st1 = emit (Console (Log_logging_in username (baseUrl st))) st
      in send (Login_post (baseUrl st @ ''/login/login'') companyCode username password) st1)"

definition login_receive :: "fetch_reply \<Rightarrow> state \<Rightarrow> (js_error + string) \<times> state" where
  "login_receive reply st2 =
     (case reply of
        Rejects err \<Rightarrow> (Inl err, st2)
      | Resolves loginResponse \<Rightarrow>
          (let cookies = getSetCookie loginResponse;
               st3 = emit (Console (Log_login_status (status loginResponse))) st2;
               st4 = emit (Console (Log_received_cookies (length cookies))) st3
           in if length cookies = 0
              then (Inl (Error ''Login failed - no cookies received''), st4)
              else (let st5 = st4\<lparr>sessionCookies := Some (cookie_header cookies)\<rparr>;
                        st6 = st5\<lparr>sessionExpiry := Some (clock st5 + 30 * 60 * 1000)\<rparr>;
                        st7 = emit (Console Log_login_successful) st6
                    in (Inr (cookie_header cookies), st7))))"

text \<open>
  The first \<^verbatim>\<open>await getSessionCookies()\<close> of an attempt: the cache test is made at the
  call, and either the cached header is returned or \<^verbatim>\<open>login\<close> sends its request.
\<close>

definition look_up_session :: "nat \<Rightarrow> state \<Rightarrow> outcome \<times> state" where
  "look_up_session attempt st =
     (let logging_in = (case login_send st of
                          ((due, reply), st1) \<Rightarrow> (Suspended due (Logging_in attempt reply), st1))
      in case sessionCookies st of
           None \<Rightarrow> logging_in
         | Some cookies \<Rightarrow>
             (case sessionExpiry st of
                None \<Rightarrow> logging_in
              | Some expiry \<Rightarrow>
                  if cookies \<noteq> [] \<and> expiry \<noteq> 0 \<and> clock st < expiry
                  then (Suspended (clock st) (Session_cached attempt cookies), st)
                  else logging_in))"

text \<open>The object the callback returns.\<close>

definition result_of :: "task \<Rightarrow> buffer option \<Rightarrow> pdf_result" where
  "result_of t pdfBlob =
     \<lparr>htl_code = htl_code (booking t), res_id = res_id (booking t),
      filename = to_string (htl_code (booking t)) @ ''-'' @ to_string (res_id (booking t)) @ ''.pdf'',
      blob = pdfBlob\<rparr>"

text \<open>
  The head of the \<^verbatim>\<open>for\<close> loop and the start of the \<^verbatim>\<open>try\<close> block, up to the first
  \<^verbatim>\<open>await\<close>. Falling out of the loop returns \<^verbatim>\<open>undefined\<close> to the callback.
\<close>

definition next_attempt :: "task \<Rightarrow> nat \<Rightarrow> nat \<Rightarrow> state \<Rightarrow> outcome \<times> state" where
  "next_attempt t maxRetries attempt st =
     (if attempt \<le> maxRetries
      then (if attempt > 1
            then (Suspended (clock st + backoffDelay attempt) (Backing_off attempt),
                  emit (Delay (backoffDelay attempt))
                    (emit (Console (Log_retry attempt maxRetries (to_string (htl_code (booking t)))
                       (to_string (res_id (booking t))) (backoffDelay attempt))) st))
            else look_up_session attempt st)
      else (Settled (Some (result_of t None)), st))"

text \<open>
  The \<^verbatim>\<open>catch\<close> block of the loop. After the last attempt it throws, and the \<^verbatim>\<open>catch\<close>
  of the callback logs the error and returns \<^verbatim>\<open>null\<close>.
\<close>

definition attempt_failed :: "task \<Rightarrow> nat \<Rightarrow> nat \<Rightarrow> js_error \<Rightarrow> state \<Rightarrow> outcome \<times> state" where
  "attempt_failed t maxRetries attempt err st =
     (let st1 = emit (Console (Err_attempt_failed attempt maxRetries (to_string (htl_code (booking t)))
                  (to_string (res_id (booking t))) (message err))) st
      in if attempt = maxRetries
         then (Settled None,
               emit (Console (Err_gave_up (to_string (htl_code (booking t))) (to_string (res_id (booking t)))
                       (''Failed after '' @ show_nat maxRetries @ '' attempts: '' @ message err))) st1)
         else next_attempt t maxRetries (attempt + 1) st1)"

text \<open>Reading and checking the body, and returning from the callback.\<close>

definition finish :: "task \<Rightarrow> nat \<Rightarrow> nat \<Rightarrow> http_response \<Rightarrow> state \<Rightarrow> outcome \<times> state" where
  "finish t maxRetries attempt response st =
     (case read_pdf (htl_code (booking t)) (res_id (booking t)) response st of
        (Inl err, st1) \<Rightarrow> attempt_failed t maxRetries attempt err st1
      | (Inr buffer, st1) \<Rightarrow> (Settled (Some (result_of t (Some buffer))), st1))"

text \<open>
  A task goes on from the \<^verbatim>\<open>await\<close> it was suspended at, at the time \<open>due\<close>, up to its
  next \<^verbatim>\<open>await\<close> or to its end.
\<close>

definition resume :: "task \<Rightarrow> nat \<Rightarrow> nat \<Rightarrow> phase \<Rightarrow> state \<Rightarrow> outcome \<times> state" where
  "resume t maxRetries due ph st0 =
     (let st = awake due st0
      in case ph of
           Backing_off attempt \<Rightarrow> look_up_session attempt st
         | Session_cached attempt cookies \<Rightarrow>
             (case send (Pdf_get (url t) cookies True) st of
                ((due1, reply), st1) \<Rightarrow> (Suspended due1 (Fetching attempt reply), st1))
         | Logging_in attempt reply \<Rightarrow>
             (case login_receive reply st of
                (Inl err, st1) \<Rightarrow> attempt_failed t maxRetries attempt err st1
              | (Inr cookies, st1) \<Rightarrow>
                  (case send (Pdf_get (url t) cookies True) st1 of
                     ((due1, reply1), st2) \<Rightarrow> (Suspended due1 (Fetching attempt reply1), st2)))
         | Fetching attempt reply \<Rightarrow>
             (case reply of
                Rejects err \<Rightarrow> attempt_failed t maxRetries attempt err st
              | Resolves response \<Rightarrow>
                  if status response = 302 \<and> login_redirect (location response)
                  then (let st4 = emit (Console Log_session_expired) st;
                            st5 = st4\<lparr>sessionCookies := None\<rparr>
                        in case login_send st5 of
                             ((due1, reply1), st6) \<Rightarrow>
                               (Suspended due1 (Logging_in_again attempt reply1), st6))
                  else if \<not> ok response \<and> status response \<noteq> 302
                  then attempt_failed t maxRetries attempt (http_error response) st
                  else finish t maxRetries attempt response st)
         | Logging_in_again attempt reply \<Rightarrow>
             (case login_receive reply st of
                (Inl err, st1) \<Rightarrow> attempt_failed t maxRetries attempt err st1
              | (Inr newCookies, st1) \<Rightarrow>
                  (case send (Pdf_get (url t) newCookies False) st1 of
                     ((due1, reply1), st2) \<Rightarrow> (Suspended due1 (Retrying attempt reply1), st2)))
         | Retrying attempt reply \<Rightarrow>
             (case reply of
                Rejects err \<Rightarrow> attempt_failed t maxRetries attempt err st
              | Resolves retryResponse \<Rightarrow>
                  if \<not> ok retryResponse
                  then attempt_failed t maxRetries attempt (http_error retryResponse) st
                  else finish t maxRetries attempt retryResponse st))"

text \<open>
  The callback of \<^verbatim>\<open>batch.map\<close> up to its first \<^verbatim>\<open>await\<close>: the log line and the entry
  into \<^verbatim>\<open>generatePdfForReservation\<close>.
\<close>

definition batch_task :: "nat \<Rightarrow> nat \<Rightarrow> nat \<Rightarrow> reservation \<Rightarrow> nat \<Rightarrow> state \<Rightarrow> task \<times> outcome \<times> state" where
  "batch_task n batchIndex index x maxRetries st =
     (let st1 = emit (Console (Log_generating (to_string (res_id x)) (to_string (htl_code x))
                   batchIndex n)) st;
          t = \<lparr>place = index, booking = x, url = pdfUrl st1 (htl_code x) (res_id x)\<rparr>
      in case next_attempt t maxRetries 1 st1 of (out, st2) \<Rightarrow> (t, out, st2))"

subsection \<open>The event loop\<close>

text \<open>
  The waiting tasks of a batch, in the order in which they were suspended, and the tasks
  that have settled, with their values.
\<close>

type_synonym waiting = "task \<times> nat \<times> phase"

type_synonym settled = "(nat \<times> pdf_result option) list"

text \<open>
  \<^verbatim>\<open>batch.map\<close> calls the callback for every reservation of the batch in order. Each call
  runs to its first \<^verbatim>\<open>await\<close> before the next one starts, and nothing that is awaited
  arrives in between.
\<close>

fun launch :: "nat \<Rightarrow> nat \<Rightarrow> nat \<Rightarrow> reservation list \<Rightarrow> nat \<Rightarrow> state \<Rightarrow> (waiting list \<times> settled) \<times> state" where
  "launch n i index [] maxRetries st = (([], []), st)"
| "launch n i index (x # xs) maxRetries st =
     (case batch_task n (i + index + 1) index x maxRetries st of
        (t, out, st1) \<Rightarrow>
          (case launch n i (index + 1) xs maxRetries st1 of
             ((ws, done), st2) \<Rightarrow>
               (case out of
                  Suspended due ph \<Rightarrow> (((t, due, ph) # ws, done), st2)
                | Settled result \<Rightarrow> ((ws, (place t, result) # done), st2))))"

text \<open>
  Which waiting task goes on next. Microtasks run before anything else, in the order in
  which they were queued. A timer fires and a reply arrives at its due time; the earliest
  one is handled first, and of several with the same due time the one that has waited
  longest.
\<close>

fun microtask :: "waiting \<Rightarrow> bool" where
  "microtask (t, due, Session_cached attempt cookies) = True"
| "microtask w = False"

definition due_time :: "waiting \<Rightarrow> nat" where
  "due_time w = fst (snd w)"

definition next_up :: "waiting list \<Rightarrow> waiting" where
  "next_up ws = (case filter microtask ws of w # rest \<Rightarrow> w | [] \<Rightarrow> arg_min_list due_time ws)"

text \<open>One turn of the event loop: the next task runs to its next \<^verbatim>\<open>await\<close> or to its end.\<close>

definition turn :: "nat \<Rightarrow> waiting list \<Rightarrow> settled \<Rightarrow> state \<Rightarrow> waiting list \<times> settled \<times> state" where
  "turn maxRetries ws done st =
     (case next_up ws of
        (t, due, ph) \<Rightarrow>
          (case resume t maxRetries due ph st of
             (Suspended due1 ph1, st1) \<Rightarrow> (remove1 (t, due, ph) ws @ [(t, due1, ph1)], done, st1)
           | (Settled result, st1) \<Rightarrow> (remove1 (t, due, ph) ws, done @ [(place t, result)], st1)))"

text \<open>
  How far a waiting task is from its end at most: six suspensions for every attempt still
  to come, and those left in the current attempt.
\<close>

fun attempt_of :: "phase \<Rightarrow> nat" where
  "attempt_of (Backing_off attempt) = attempt"
| "attempt_of (Session_cached attempt cookies) = attempt"
| "attempt_of (Logging_in attempt reply) = attempt"
| "attempt_of (Fetching attempt reply) = attempt"
| "attempt_of (Logging_in_again attempt reply) = attempt"
| "attempt_of (Retrying attempt reply) = attempt"

fun stage :: "phase \<Rightarrow> nat" where
  "stage (Backing_off attempt) = 6"
| "stage (Session_cached attempt cookies) = 5"
| "stage (Logging_in attempt reply) = 5"
| "stage (Fetching attempt reply) = 4"
| "stage (Logging_in_again attempt reply) = 3"
| "stage (Retrying attempt reply) = 2"

definition rank :: "nat \<Rightarrow> waiting \<Rightarrow> nat" where
  "rank maxRetries w = 6 * (maxRetries - attempt_of (snd (snd w))) + stage (snd (snd w))"

text \<open>
  \<^verbatim>\<open>await Promise.all(batchPromises)\<close>: the event loop turns until no task of the batch is
  waiting any more.
\<close>

function event_loop :: "nat \<Rightarrow> waiting list \<Rightarrow> settled \<Rightarrow> state \<Rightarrow> settled \<times> state" where
  "event_loop maxRetries ws done st =
     (if ws = [] then (done, st)
      else (case turn maxRetries ws done st of
              (ws1, done1, st1) \<Rightarrow> event_loop maxRetries ws1 done1 st1))"
  by pat_completeness auto
termination
proof (relation "measure (\<lambda>(maxRetries, ws, done, st). sum_list (map (rank maxRetries) ws))")
  show "wf (measure (\<lambda>(maxRetries, ws, done, st). sum_list (map (rank maxRetries) ws)))"
    by simp
next
  fix maxRetries :: nat and ws :: "waiting list" and dn :: settled and st :: state
    and ws1 y done1 st1
  assume ne: "ws \<noteq> []" and xy: "(ws1, y) = turn maxRetries ws dn st" and
    y: "(done1, st1) = y"
  obtain t due ph where nu: "next_up ws = (t, due, ph)"
    by (cases "next_up ws") auto
  have mem: "(t, due, ph) \<in> set ws"
  proof (cases "filter microtask ws")
    case Nil
    with nu ne show ?thesis
      using arg_min_list_in [of ws due_time] by (simp add: next_up_def)
  next
    case (Cons w rest)
    have "set (filter microtask ws) \<subseteq> set ws" by auto
    with Cons have "w \<in> set ws" by auto
    moreover from nu Cons have "w = (t, due, ph)" by (simp add: next_up_def)
    ultimately show ?thesis by simp
  qed
  have next_rank: "rank maxRetries (t, d, p) < 6 * (maxRetries - k) + 2"
    if "next_attempt t maxRetries (Suc k) s = (Suspended d p, s')" for k d p s s'
    using that
    by (auto simp: next_attempt_def look_up_session_def login_send_def rank_def Let_def
        split: if_splits option.splits prod.splits)
  have failed_rank: "rank maxRetries (t, d, p) < 6 * (maxRetries - k) + 2"
    if "attempt_failed t maxRetries k err s = (Suspended d p, s')" for k d p s s' err
    using that
    by (auto simp: attempt_failed_def Let_def split: if_splits dest!: next_rank)
  have finish_rank: "rank maxRetries (t, d, p) < 6 * (maxRetries - k) + 2"
    if "finish t maxRetries k response s = (Suspended d p, s')" for k d p s s' response
    using that
    by (auto simp: finish_def split: prod.splits sum.splits dest!: failed_rank)
  have less: "rank maxRetries (t, due1, ph1) < rank maxRetries (t, due, ph)"
    if "resume t maxRetries due ph st = (Suspended due1 ph1, st1)" for due1 ph1
  proof (cases ph)
    case (Backing_off k)
    with that show ?thesis
      by (auto simp: resume_def look_up_session_def login_send_def rank_def Let_def
          split: if_splits option.splits prod.splits)
  next
    case (Session_cached k c)
    with that show ?thesis
      by (auto simp: resume_def rank_def Let_def split: prod.splits)
  next
    case (Logging_in k reply)
    with that show ?thesis
      by (auto simp: resume_def rank_def Let_def split: prod.splits sum.splits
          dest!: failed_rank)
  next
    case (Fetching k reply)
    with that show ?thesis
      by (auto simp: resume_def rank_def Let_def
          split: prod.splits fetch_reply.splits if_splits dest!: failed_rank finish_rank)
  next
    case (Logging_in_again k reply)
    with that show ?thesis
      by (auto simp: resume_def rank_def Let_def split: prod.splits sum.splits
          dest!: failed_rank)
  next
    case (Retrying k reply)
    with that show ?thesis
      by (auto simp: resume_def rank_def Let_def
          split: prod.splits fetch_reply.splits if_splits dest!: failed_rank finish_rank)
  qed
  have pos: "0 < rank maxRetries (t, due, ph)"
    by (cases ph) (simp_all add: rank_def)
  have split_sum: "sum_list (map (rank maxRetries) ws)
      = rank maxRetries (t, due, ph) + sum_list (map (rank maxRetries) (remove1 (t, due, ph) ws))"
    using mem by (rule sum_list_map_remove1)
  show "((maxRetries, ws1, done1, st1), (maxRetries, ws, dn, st))
          \<in> measure (\<lambda>(maxRetries, ws, done, st). sum_list (map (rank maxRetries) ws))"
  proof (cases "resume t maxRetries due ph st")
    case (Pair out s)
    show ?thesis
    proof (cases out)
      case (Suspended due1 ph1)
      with Pair xy y nu less [of due1 ph1] split_sum show ?thesis
        by (auto simp: turn_def)
    next
      case (Settled result)
      with Pair xy y nu pos split_sum show ?thesis
        by (auto simp: turn_def)
    qed
  qed
qed

declare event_loop.simps [simp del]

text \<open>
  \<^verbatim>\<open>batch.map(async ...)\<close> followed by \<^verbatim>\<open>await Promise.all(batchPromises)\<close>. The tasks
  call \<^verbatim>\<open>generatePdfForReservation\<close> without its third argument, so \<^verbatim>\<open>maxRetries\<close> is 3.
  \<^verbatim>\<open>Promise.all\<close> gives the values of the tasks in the order of the batch, whatever the
  order in which they settled.
\<close>

definition batchPromises :: "nat \<Rightarrow> nat \<Rightarrow> nat \<Rightarrow> reservation list \<Rightarrow> state \<Rightarrow> pdf_result option list \<times> state" where
  "batchPromises n i index batch st =
     (case launch n i index batch 3 st of
        ((ws, done), st1) \<Rightarrow>
          (case event_loop 3 ws done st1 of
             (done1, st2) \<Rightarrow> (map snd (sort_key fst done1), st2)))"

definition batchSize :: nat where
  "batchSize = 20"

text \<open>The \<^verbatim>\<open>for (let i = 0; i < reservations.length; i += batchSize)\<close> loop.\<close>

function batch_loop :: "reservation list \<Rightarrow> nat \<Rightarrow> pdf_result list \<Rightarrow> state \<Rightarrow> pdf_result list \<times> state" where
  "batch_loop reservations i pdfResults st =
     (if i < length reservations
      then (let batch = take batchSize (drop i reservations);
                st1 = emit (Console (Log_batch (i div batchSize + 1) (length batch))) st
            in case batchPromises (length reservations) i 0 batch st1 of
                 (batchResults, st2) \<Rightarrow>
                   batch_loop reservations (i + batchSize)
                     (pdfResults @ map the (filter (\<lambda>result. result \<noteq> None) batchResults))
                     (if i + batchSize < length reservations then delay 200 st2 else st2))
      else (pdfResults, st))"
  by pat_completeness auto
termination
  by (relation "measure (\<lambda>(reservations, i, pdfResults, st). length reservations - i)")
     (auto simp: batchSize_def)

declare batch_loop.simps [simp del]

text \<open>The outer \<^verbatim>\<open>catch\<close> of the handler.\<close>

definition outer_catch :: "js_error \<Rightarrow> state \<Rightarrow> response \<times> state" where
  "outer_catch err st =
     (NextResponse_json (message err) 500, emit (Console (Err_create_zip (message err))) st)"

text \<open>
  The handler. \<open>req\<close> is what \<^verbatim>\<open>await req.json()\<close> gives: the decoded body, or the
  \<^verbatim>\<open>SyntaxError\<close> it throws when the body is not JSON.
\<close>

definition POST :: "js_error + json \<Rightarrow> state \<Rightarrow> response \<times> state" where
  "POST req st =
     (case req of
        Inl err \<Rightarrow> outer_catch err st
      | Inr body \<Rightarrow>
          (case get_prop body ''reservationIds'' of
             Inl err \<Rightarrow> outer_catch err st
           | Inr (Some (JArr reservationIds)) \<Rightarrow>
               (case validate_all reservationIds of
                  Inl validationErr \<Rightarrow>
                    (NextResponse_json (message validationErr) 400,
                     emit (Console (Err_validation (message validationErr))) st)
                | Inr reservations \<Rightarrow>
                    (case batch_loop reservations 0 []
                            (emit (Console (Log_processing (length reservations))) st) of
                       (pdfResults, st1) \<Rightarrow>
                         (let successCount = length pdfResults;
                              failCount = length reservations - successCount;
                              st2 = emit (Console (Log_complete successCount failCount
                                      (length reservations))) st1
                          in if length pdfResults = 0
                             then (NextResponse_json ''Failed to fetch any PDFs'' 500, st2)
                             else (NextResponse_zip
                                     (fold (\<lambda>result. zip_file (filename result) (blob result))
                                        pdfResults [])
                                     200
                                     [(''Content-Type'', ''application/zip''),
                                      (''Content-Disposition'', ''attachment; filename=reservations.zip''),
                                      (''Access-Control-Allow-Origin'', ''*''),
                                      (''X-PDF-Success-Count'', show_nat successCount),
                                      (''X-PDF-Fail-Count'', show_nat failCount)], st2))))
           | Inr _ \<Rightarrow> (NextResponse_json ''Invalid or missing reservationIds'' 400, st)))"

section \<open>Observing a run\<close>

text \<open>
  What a call has done is read off the trace: \<open>events_since st st'\<close> are the events between
  the state \<open>st\<close> a call started in and the state \<open>st'\<close> it ended in. The functions below
  pick out the events a property is about.
\<close>

definition events_since :: "state \<Rightarrow> state \<Rightarrow> event list" where
  "events_since st st' = drop (length (trace st)) (trace st')"

text \<open>The requests sent upstream.\<close>

fun request_of :: "event \<Rightarrow> request option" where
  "request_of (Fetch req) = Some req"
| "request_of e = None"

text \<open>
  The milestones of the retry loop: a sleep, the failure of attempt \<open>k\<close> with the message
  of the caught error, and a fetched document.
\<close>

datatype mark = Slept nat | Failed nat string | Fetched

fun mark_of :: "event \<Rightarrow> mark option" where
  "mark_of (Delay ms) = Some (Slept ms)"
| "mark_of (Console (Err_attempt_failed k m h r msg)) = Some (Failed k msg)"
| "mark_of (Console (Log_fetched h r n)) = Some Fetched"
| "mark_of e = None"

fun is_attempt :: "mark \<Rightarrow> bool" where
  "is_attempt (Slept ms) = False"
| "is_attempt m = True"

fun failure_of :: "event \<Rightarrow> string option" where
  "failure_of (Console (Err_attempt_failed k m h r msg)) = Some msg"
| "failure_of e = None"

text \<open>The reservations whose document was fetched, and those given up after all retries.\<close>

fun fetched_of :: "event \<Rightarrow> (string \<times> string) option" where
  "fetched_of (Console (Log_fetched h r n)) = Some (h, r)"
| "fetched_of e = None"

fun gave_up_of :: "event \<Rightarrow> (string \<times> string) option" where
  "gave_up_of (Console (Err_gave_up h r msg)) = Some (h, r)"
| "gave_up_of e = None"

text \<open>
  The milestones of the batch loop: the start of batch \<open>b\<close> with its size, the start of the
  task for hotel \<open>h\<close> and reservation \<open>r\<close> at position \<open>i\<close> of \<open>n\<close>, and the 200 ms
  pause between batches (the backoff sleeps are all longer).
\<close>

datatype step = Batch nat nat | Task string string nat nat | Pause

fun step_of :: "event \<Rightarrow> step option" where
  "step_of (Console (Log_batch b n)) = Some (Batch b n)"
| "step_of (Console (Log_generating r h i n)) = Some (Task h r i n)"
| "step_of (Delay ms) = (if ms = 200 then Some Pause else None)"
| "step_of e = None"

text \<open>
  The progress of the batches: the start of batch \<open>b\<close> of size \<open>n\<close>, the start of a task,
  and the end of a task, with a document or given up.
\<close>

datatype progress = Started nat nat | Begun | Ended

fun progress_of :: "event \<Rightarrow> progress option" where
  "progress_of (Console (Log_batch b n)) = Some (Started b n)"
| "progress_of (Console (Log_generating r h i n)) = Some Begun"
| "progress_of (Console (Log_fetched h r n)) = Some Ended"
| "progress_of (Console (Err_gave_up h r msg)) = Some Ended"
| "progress_of e = None"

text \<open>
  The traffic with the upstream as the batches see it: the start of a batch of \<open>n\<close>
  tasks, a request that is sent, and the first thing the code does with a reply it has
  waited for. After \<^verbatim>\<open>await fetch\<close> returns, \<^verbatim>\<open>login\<close> logs the status of the response;
  the fetcher logs the expired session or the fetched document, or its \<^verbatim>\<open>catch\<close> block
  logs the failed attempt.
\<close>

datatype flight = Announced nat | Sent | Handled

fun flight_of :: "event \<Rightarrow> flight option" where
  "flight_of (Console (Log_batch b n)) = Some (Announced n)"
| "flight_of (Fetch req) = Some Sent"
| "flight_of (Console (Log_login_status s)) = Some Handled"
| "flight_of (Console Log_session_expired) = Some Handled"
| "flight_of (Console (Err_attempt_failed k m h r msg)) = Some Handled"
| "flight_of (Console (Log_fetched h r n)) = Some Handled"
| "flight_of e = None"

text \<open>Events of the session manager and of the network, which the retry and batch code only passes through.\<close>

fun wire_event :: "event \<Rightarrow> bool" where
  "wire_event (Fetch req) = True"
| "wire_event (Console (Log_logging_in u b)) = True"
| "wire_event (Console (Log_login_status s)) = True"
| "wire_event (Console (Log_received_cookies n)) = True"
| "wire_event (Console Log_login_successful) = True"
| "wire_event (Console Log_session_expired) = True"
| "wire_event e = False"

section \<open>What the specification expects\<close>

text \<open>
  The retry schedule in the specification's words: before attempt \<open>k > 1\<close> a sleep of
  \<open>min(1000 * 2^(k-1), 5000)\<close> ms; \<open>failures_from k msgs\<close> are the milestones of
  consecutive failed attempts \<open>k, k+1, ...\<close> with the given error messages.
\<close>

definition sleep_before :: "nat \<Rightarrow> mark list" where
  "sleep_before attempt = (if 1 < attempt then [Slept (min (1000 * 2 ^ (attempt - 1)) 5000)] else [])"

fun failures_from :: "nat \<Rightarrow> string list \<Rightarrow> mark list" where
  "failures_from attempt [] = []"
| "failures_from attempt (msg # msgs) =
     sleep_before attempt @ [Failed attempt msg] @ failures_from (Suc attempt) msgs"

text \<open>Consecutive groups of size 20, the last one possibly smaller.\<close>

function groups :: "'a list \<Rightarrow> 'a list list" where
  "groups xs = (if xs = [] then [] else take 20 xs # groups (drop 20 xs))"
  by pat_completeness auto
termination
  by (relation "measure length") auto

declare groups.simps [simp del]

text \<open>
  The milestones of processing the groups in order, batch \<open>b\<close> first: the tasks of a group
  carry the positions of its reservations in the whole input of length \<open>n\<close>, and a pause
  follows a group only when another group comes after it.
\<close>

fun task_steps :: "nat \<Rightarrow> nat \<Rightarrow> reservation list \<Rightarrow> step list" where
  "task_steps n j [] = []"
| "task_steps n j (x # xs) =
     Task (to_string (htl_code x)) (to_string (res_id x)) j n # task_steps n (Suc j) xs"

fun batch_steps :: "nat \<Rightarrow> nat \<Rightarrow> reservation list list \<Rightarrow> step list" where
  "batch_steps n b [] = []"
| "batch_steps n b (g # gs) =
     Batch b (length g) # task_steps n (20 * (b - 1) + 1) g
       @ (if gs = [] then [] else [Pause]) @ batch_steps n (Suc b) gs"

text \<open>
  Strictly one group after the other, and the tasks of a group together: when batch \<open>b\<close>
  starts, every task of the earlier groups has ended and no task of a later group has begun;
  within a batch every task has begun before the first of them ends.
\<close>

fun batch_progress :: "nat \<Rightarrow> 'a list list \<Rightarrow> progress list" where
  "batch_progress b [] = []"
| "batch_progress b (g # gs) =
     Started b (length g) # replicate (length g) Begun @ replicate (length g) Ended
       @ batch_progress (Suc b) gs"

text \<open>
  The fetches of a group run concurrently: after the start of a batch of \<open>n\<close> tasks,
  \<open>n\<close> requests are sent before the reply to any of them is handled.
\<close>

fun overlapped :: "flight list \<Rightarrow> bool" where
  "overlapped [] = True"
| "overlapped (Announced n # fs) = (take n fs = replicate n Sent \<and> overlapped fs)"
| "overlapped (f # fs) = overlapped fs"

text \<open>A valid element of \<^verbatim>\<open>reservationIds\<close>: an object with truthy \<^verbatim>\<open>htl_code\<close> and \<^verbatim>\<open>res_id\<close>.\<close>

fun valid_item :: "json \<Rightarrow> bool" where
  "valid_item (JObj kvs) =
     (case map_of kvs ''htl_code'' of
        None \<Rightarrow> False
      | Some h \<Rightarrow> truthy h \<and> (case map_of kvs ''res_id'' of None \<Rightarrow> False | Some r \<Rightarrow> truthy r))"
| "valid_item v = False"

section \<open>Auxiliary descriptions used in the proofs\<close>

text \<open>The events of the loop of attempts other than those of the session and the network.\<close>

definition before_attempt :: "json \<Rightarrow> json \<Rightarrow> nat \<Rightarrow> nat \<Rightarrow> event list" where
  "before_attempt h r m k =
     (if 1 < k then [Console (Log_retry k m (to_string h) (to_string r) (backoffDelay k)),
                     Delay (backoffDelay k)] else [])"

fun failed_attempts :: "json \<Rightarrow> json \<Rightarrow> nat \<Rightarrow> nat \<Rightarrow> string list \<Rightarrow> event list" where
  "failed_attempts h r m k [] = []"
| "failed_attempts h r m k (msg # msgs) =
     before_attempt h r m k @ [Console (Err_attempt_failed k m (to_string h) (to_string r) msg)]
       @ failed_attempts h r m (Suc k) msgs"

definition run_events :: "json \<Rightarrow> json \<Rightarrow> nat \<Rightarrow> nat \<Rightarrow> string list \<Rightarrow> (js_error + buffer option) \<Rightarrow> event list" where
  "run_events h r m k msgs res =
     failed_attempts h r m k msgs @
       (case res of
          Inr (Some b) \<Rightarrow> before_attempt h r m (k + length msgs)
                           @ [Console (Log_fetched (to_string h) (to_string r) (length b))]
        | _ \<Rightarrow> [])"

definition run_outcome :: "nat \<Rightarrow> nat \<Rightarrow> string list \<Rightarrow> (js_error + buffer option) \<Rightarrow> bool" where
  "run_outcome m k msgs res =
     (case res of
        Inl e \<Rightarrow> k + length msgs = Suc m \<and> msgs \<noteq> [] \<and>
                 e = Error (''Failed after '' @ show_nat m @ '' attempts: '' @ last msgs)
      | Inr (Some b) \<Rightarrow> k + length msgs \<le> m
      | Inr None \<Rightarrow> m < k \<and> msgs = [])"

definition successes :: "pdf_result option list \<Rightarrow> pdf_result list" where
  "successes results = map the (filter (\<lambda>result. result \<noteq> None) results)"

definition entry_ok :: "pdf_result \<Rightarrow> bool" where
  "entry_ok p = (filename p = to_string (htl_code p) @ ''-'' @ to_string (res_id p) @ ''.pdf''
                 \<and> (\<exists>b. blob p = Some b \<and> isPDF b))"

definition label :: "pdf_result \<Rightarrow> string \<times> string" where
  "label p = (to_string (htl_code p), to_string (res_id p))"

definition zip_headers :: "nat \<Rightarrow> nat \<Rightarrow> (string \<times> string) list" where
  "zip_headers succeeded failed =
     [(''Content-Type'', ''application/zip''),
      (''Content-Disposition'', ''attachment; filename=reservations.zip''),
      (''Access-Control-Allow-Origin'', ''*''),
      (''X-PDF-Success-Count'', show_nat succeeded),
      (''X-PDF-Fail-Count'', show_nat failed)]"

text \<open>Events that none of the observers of the batch loop sees.\<close>

definition quiet :: "event list \<Rightarrow> bool" where
  "quiet es \<longleftrightarrow> List.map_filter step_of es = [] \<and> List.map_filter progress_of es = []
     \<and> List.map_filter fetched_of es = [] \<and> List.map_filter gave_up_of es = []"

text \<open>
  What one turn of a task adds to the trace: nothing the observers see while the task is
  suspended again, and the one line that ends it when it settles.
\<close>

definition closes :: "task \<Rightarrow> outcome \<Rightarrow> nat \<Rightarrow> event list \<Rightarrow> bool" where
  "closes t out m es \<longleftrightarrow>
     List.map_filter step_of es = [] \<and>
     (case out of
        Suspended d p \<Rightarrow> attempt_of p \<le> m \<and> quiet es
      | Settled None \<Rightarrow> List.map_filter progress_of es = [Ended] \<and> List.map_filter fetched_of es = []
          \<and> List.map_filter gave_up_of es = [(to_string (htl_code (booking t)), to_string (res_id (booking t)))]
      | Settled (Some p) \<Rightarrow> List.map_filter progress_of es = [Ended]
          \<and> List.map_filter fetched_of es = [label p] \<and> List.map_filter gave_up_of es = []
          \<and> entry_ok p \<and> htl_code p = htl_code (booking t) \<and> res_id p = res_id (booking t))"

text \<open>
  A task that is alone in the event loop, followed to its end; and the parts of an attempt of
  \<^verbatim>\<open>generatePdfForReservation\<close> that follow each of its \<^verbatim>\<open>await\<close> expressions, with
  the value the callback makes of the result.
\<close>

definition carry_on :: "nat \<Rightarrow> task \<Rightarrow> settled \<Rightarrow> outcome \<times> state \<Rightarrow> settled \<times> state" where
  "carry_on m t dn x =
     (case x of
        (Suspended d p, st1) \<Rightarrow> event_loop m [(t, d, p)] dn st1
      | (Settled res, st1) \<Rightarrow> (dn @ [(place t, res)], st1))"

definition conclude :: "nat \<Rightarrow> task \<Rightarrow> settled \<Rightarrow> nat \<Rightarrow> (js_error + buffer) \<times> state \<Rightarrow> settled \<times> state" where
  "conclude m t dn k x =
     (case x of
        (Inl err, st1) \<Rightarrow> carry_on m t dn (attempt_failed t m k err st1)
      | (Inr b, st1) \<Rightarrow> (dn @ [(place t, Some (result_of t (Some b)))], st1))"

definition after_retry :: "json \<Rightarrow> json \<Rightarrow> fetch_reply \<times> state \<Rightarrow> (js_error + buffer) \<times> state" where
  "after_retry h r x =
     (case x of
        (Rejects err, st7) \<Rightarrow> (Inl err, st7)
      | (Resolves retryResponse, st7) \<Rightarrow>
          if \<not> ok retryResponse then (Inl (http_error retryResponse), st7)
          else read_pdf h r retryResponse st7)"

definition after_relogin :: "json \<Rightarrow> json \<Rightarrow> string \<Rightarrow> (js_error + string) \<times> state \<Rightarrow> (js_error + buffer) \<times> state" where
  "after_relogin h r u x =
     (case x of
        (Inl err, st6) \<Rightarrow> (Inl err, st6)
      | (Inr newCookies, st6) \<Rightarrow> after_retry h r (fetch (Pdf_get u newCookies False) st6))"

definition after_fetch :: "json \<Rightarrow> json \<Rightarrow> string \<Rightarrow> fetch_reply \<times> state \<Rightarrow> (js_error + buffer) \<times> state" where
  "after_fetch h r u x =
     (case x of
        (Rejects err, st3) \<Rightarrow> (Inl err, st3)
      | (Resolves response, st3) \<Rightarrow>
          if status response = 302 \<and> login_redirect (location response)
          then after_relogin h r u
                 (getSessionCookies ((emit (Console Log_session_expired) st3)\<lparr>sessionCookies := None\<rparr>))
          else if \<not> ok response \<and> status response \<noteq> 302 then (Inl (http_error response), st3)
          else read_pdf h r response st3)"

definition after_session :: "json \<Rightarrow> json \<Rightarrow> string \<Rightarrow> (js_error + string) \<times> state \<Rightarrow> (js_error + buffer) \<times> state" where
  "after_session h r u x =
     (case x of
        (Inl err, st2) \<Rightarrow> (Inl err, st2)
      | (Inr cookies, st2) \<Rightarrow> after_fetch h r u (fetch (Pdf_get u cookies True) st2))"

definition callback_result :: "task \<Rightarrow> settled \<Rightarrow> (js_error + buffer option) \<times> state \<Rightarrow> settled \<times> state" where
  "callback_result t dn x =
     (case x of
        (Inr pdfBlob, st2) \<Rightarrow> (dn @ [(place t, Some (result_of t pdfBlob))], st2)
      | (Inl err, st2) \<Rightarrow>
          (dn @ [(place t, None)],
           emit (Console (Err_gave_up (to_string (htl_code (booking t))) (to_string (res_id (booking t)))
                   (message err))) st2))"

fun announcement :: "flight \<Rightarrow> bool" where
  "announcement (Announced n) = True"
| "announcement f = False"

text \<open>The cache test of the session manager as a predicate on the state.\<close>

definition session_valid :: "state \<Rightarrow> bool" where
  "session_valid st =
     (case sessionCookies st of
        None \<Rightarrow> False
      | Some c \<Rightarrow> c \<noteq> [] \<and> (case sessionExpiry st of None \<Rightarrow> False | Some e \<Rightarrow> clock st < e))"

text \<open>The one request a login sends.\<close>

definition login_request :: "state \<Rightarrow> request" where
  "login_request st = Login_post (baseUrl st @ ''/login/login'')
     (or_else (PDF_COMPANY_CODE (process_env st)) []) (or_else (PDF_USERNAME (process_env st)) [])
     (or_else (PDF_PASSWORD (process_env st)) [])"

text \<open>The outcome of reading a body and checking its signature.\<close>

definition body_check :: "http_response \<Rightarrow> js_error + buffer" where
  "body_check response =
     (case arrayBuffer response of
        Inl err \<Rightarrow> Inl err
      | Inr b \<Rightarrow> if 4 \<le> length b \<and> take 4 b = ''%PDF'' then Inr b
                 else Inl (Error ''Response is not a valid PDF (likely HTML error page)''))"

section \<open>Example inputs\<close>

text \<open>Concrete environments, upstream replies and states, used to run the model.\<close>

definition example_env :: env where
  "example_env = \<lparr>LUCEE_URL = Some ''https://pms.example'', PDF_USERNAME = Some ''user'',
                   PDF_PASSWORD = Some ''secret'', PDF_COMPANY_CODE = Some ''ACME''\<rparr>"

definition example_response :: http_response where
  "example_response = \<lparr>status = 200, statusText = ''OK'', getSetCookie = [], location = None,
                        arrayBuffer = Inr []\<rparr>"

definition fresh_state :: "(nat \<times> fetch_reply) list \<Rightarrow> state" where
  "fresh_state net = \<lparr>sessionCookies = None, sessionExpiry = None, clock = 1000, network = net,
                      trace = [], process_env = example_env\<rparr>"

definition logged_in_state :: "(nat \<times> fetch_reply) list \<Rightarrow> state" where
  "logged_in_state net = \<lparr>sessionCookies = Some ''JSESSIONID=abc; cmp=7'',
                          sessionExpiry = Some 1801005, clock = 2000, network = net,
                          trace = [], process_env = example_env\<rparr>"

definition login_reply :: "nat \<times> fetch_reply" where
  "login_reply = (5, Resolves (example_response\<lparr>status := 302, statusText := ''Found'',
                    getSetCookie := [''JSESSIONID=abc; Path=/; HttpOnly'', ''cmp=7'']\<rparr>))"

definition pdf_reply :: "nat \<times> fetch_reply" where
  "pdf_reply = (7, Resolves (example_response\<lparr>arrayBuffer := Inr ''%PDF-1.4''\<rparr>))"

definition html_reply :: "nat \<times> fetch_reply" where
  "html_reply = (7, Resolves (example_response\<lparr>arrayBuffer := Inr ''<html>''\<rparr>))"

definition example_item :: json where
  "example_item = JObj [(''htl_code'', JStr ''H1''), (''res_id'', JStr ''99'')]"

definition example_body :: json where
  "example_body = JObj [(''reservationIds'', JArr [example_item])]"

definition server_error_reply :: "nat \<times> fetch_reply" where
  "server_error_reply = (9, Resolves (example_response\<lparr>status := 500,
                           statusText := ''Internal Server Error'', arrayBuffer := Inr ''<html>''\<rparr>))"

definition expired_reply :: "nat \<times> fetch_reply" where
  "expired_reply = (6, Resolves (example_response\<lparr>status := 302, statusText := ''Found'',
                      location := Some ''/login?forward=/res/print.cfm''\<rparr>))"

definition temporary_redirect_reply :: "nat \<times> fetch_reply" where
  "temporary_redirect_reply = (6, Resolves (example_response\<lparr>status := 307,
                      statusText := ''Temporary Redirect'',
                      location := Some ''/login?forward=/res/print.cfm''\<rparr>))"

definition moved_reply :: "buffer \<Rightarrow> nat \<times> fetch_reply" where
  "moved_reply body = (6, Resolves (example_response\<lparr>status := 302, statusText := ''Found'',
                      location := Some ''/maintenance'', arrayBuffer := Inr body\<rparr>))"

definition empty_cookie_reply :: "nat \<times> fetch_reply" where
  "empty_cookie_reply = (5, Resolves (example_response\<lparr>status := 302, statusText := ''Found'',
                           getSetCookie := [''; Path=/'']\<rparr>))"

definition no_cookie_reply :: "nat \<times> fetch_reply" where
  "no_cookie_reply = (5, Resolves (example_response\<lparr>status := 200, getSetCookie := []\<rparr>))"

definition empty_header_state :: state where
  "empty_header_state = snd (login (fresh_state [empty_cookie_reply, login_reply]))"

definition example_reservation :: reservation where
  "example_reservation = \<lparr>htl_code = JStr ''H1'', res_id = JStr ''99''\<rparr>"

definition example_body2 :: json where
  "example_body2 = JObj [(''reservationIds'',
     JArr [example_item, JObj [(''htl_code'', JStr ''H2''), (''res_id'', JNum ''7'')]])]"


definition example_pair :: "reservation list" where
  "example_pair = [\<lparr>htl_code = JStr ''H1'', res_id = JStr ''99''\<rparr>,
                   \<lparr>htl_code = JStr ''H2'', res_id = JNum ''7''\<rparr>]"
section \<open>Effects on the state\<close>

text \<open>The trace only grows, and each primitive changes the fields it is meant to change.\<close>

lemma emit_fields [simp]:
  "trace (emit e st) = trace st @ [e]"
  "sessionCookies (emit e st) = sessionCookies st"
  "sessionExpiry (emit e st) = sessionExpiry st"
  "clock (emit e st) = clock st"
  "network (emit e st) = network st"
  "process_env (emit e st) = process_env st"
  by (simp_all add: emit_def)

lemma delay_fields [simp]:
  "trace (delay ms st) = trace st @ [Delay ms]"
  "sessionCookies (delay ms st) = sessionCookies st"
  "sessionExpiry (delay ms st) = sessionExpiry st"
  "clock (delay ms st) = clock st + ms"
  "network (delay ms st) = network st"
  "process_env (delay ms st) = process_env st"
  by (simp_all add: delay_def)

lemma fetch_fields [simp]:
  "trace (snd (fetch req st)) = trace st @ [Fetch req]"
  "sessionCookies (snd (fetch req st)) = sessionCookies st"
  "sessionExpiry (snd (fetch req st)) = sessionExpiry st"
  "process_env (snd (fetch req st)) = process_env st"
  by (simp_all add: fetch_def split: list.splits prod.splits)

lemma fetch_traceD: "fetch req st = (rep, st') \<Longrightarrow> trace st' = trace st @ [Fetch req]"
  using fetch_fields(1) [of req st] by simp

lemma events_since_append [simp]: "trace st' = trace st @ es \<Longrightarrow> events_since st st' = es"
  by (simp add: events_since_def)

lemma backoff_step_trace:
  "trace (backoff_step h r m k st) = trace st @ before_attempt h r m k"
  by (simp add: backoff_step_def before_attempt_def)

lemma backoff_step_env [simp]: "process_env (backoff_step h r m k st) = process_env st"
  by (simp add: backoff_step_def)

section \<open>Strings and bodies\<close>

text \<open>What \<^verbatim>\<open>c.split(';')[0]\<close> keeps of a cookie, and what the two body checks of the fetcher return.\<close>

lemma split_str_takeWhile:
  "(case split_str sep s of [] \<Rightarrow> [] | w # ws \<Rightarrow> w) = takeWhile (\<lambda>c. c \<noteq> sep) s"
  by (induction s) (auto split: list.splits)

lemma cookie_header_takeWhile:
  "cookie_header cookies = join ''; '' (map (takeWhile (\<lambda>c. c \<noteq> CHR '';'')) cookies)"
  by (simp add: cookie_header_def split_str_takeWhile)

lemma isPDF_iff: "isPDF b \<longleftrightarrow> 4 \<le> length b \<and> take 4 b = ''%PDF''"
  by (auto simp: isPDF_def)

lemma fst_read_pdf: "fst (read_pdf h r response st) = body_check response"
  by (auto simp: read_pdf_def body_check_def isPDF_def split: sum.splits)

lemma read_pdf_trace:
  assumes "read_pdf h r response st = (res, st')"
  shows "trace st' = trace st @ (case res of Inr b \<Rightarrow> [Console (Log_fetched (to_string h) (to_string r) (length b))] | Inl err \<Rightarrow> [])"
  using assms by (auto simp: read_pdf_def split: sum.splits if_splits)

section \<open>Projections of a trace\<close>

text \<open>The projections distribute over append, ignore the events of the session and the network, and are known on the events of the loop of attempts.\<close>

lemma map_filter_append [simp]:
  "List.map_filter f (xs @ ys) = List.map_filter f xs @ List.map_filter f ys"
  by (simp add: List.map_filter_def)

lemma map_filter_wire:
  assumes "\<And>e. wire_event e \<Longrightarrow> f e = None"
  shows "List.map_filter f es = List.map_filter f (filter (\<lambda>e. \<not> wire_event e) es)"
  by (induction es) (auto simp: List.map_filter_simps assms split: option.splits)

lemma wire_none [simp]:
  "wire_event e \<Longrightarrow> mark_of e = None"
  "wire_event e \<Longrightarrow> fetched_of e = None"
  "wire_event e \<Longrightarrow> gave_up_of e = None"
  "wire_event e \<Longrightarrow> step_of e = None"
  "wire_event e \<Longrightarrow> progress_of e = None"
  "wire_event e \<Longrightarrow> failure_of e = None"
  by (cases e rule: wire_event.cases; simp)+

lemma filter_wire: "\<forall>e\<in>set es. wire_event e \<Longrightarrow> filter (\<lambda>e. \<not> wire_event e) es = []"
  by (induction es) auto

lemma backoffDelay_ge: "1000 \<le> backoffDelay k"
  by (simp add: backoffDelay_def)

lemma backoffDelay_not_200 [simp]: "backoffDelay k \<noteq> 200"
  using backoffDelay_ge [of k] by simp

lemma before_attempt_proj [simp]:
  "List.map_filter fetched_of (before_attempt h r m k) = []"
  "List.map_filter gave_up_of (before_attempt h r m k) = []"
  "List.map_filter step_of (before_attempt h r m k) = []"
  "List.map_filter progress_of (before_attempt h r m k) = []"
  by (simp_all add: before_attempt_def List.map_filter_simps)

lemma failed_attempts_proj [simp]:
  "List.map_filter fetched_of (failed_attempts h r m k msgs) = []"
  "List.map_filter gave_up_of (failed_attempts h r m k msgs) = []"
  "List.map_filter step_of (failed_attempts h r m k msgs) = []"
  "List.map_filter progress_of (failed_attempts h r m k msgs) = []"
  by (induction msgs arbitrary: k; simp add: List.map_filter_simps)+

lemma run_events_proj:
  "List.map_filter fetched_of (run_events h r m k msgs res) =
     (case res of Inr (Some b) \<Rightarrow> [(to_string h, to_string r)] | _ \<Rightarrow> [])"
  "List.map_filter gave_up_of (run_events h r m k msgs res) = []"
  "List.map_filter step_of (run_events h r m k msgs res) = []"
  "List.map_filter progress_of (run_events h r m k msgs res) =
     (case res of Inr (Some b) \<Rightarrow> [Ended] | _ \<Rightarrow> [])"
  by (simp_all add: run_events_def List.map_filter_simps split: sum.splits option.splits)

lemma before_attempt_marks [simp]:
  "List.map_filter mark_of (before_attempt h r m k) = sleep_before k"
  "List.map_filter failure_of (before_attempt h r m k) = []"
  by (simp_all add: before_attempt_def sleep_before_def backoffDelay_def List.map_filter_simps)

lemma failed_attempts_marks [simp]:
  "List.map_filter mark_of (failed_attempts h r m k msgs) = failures_from k msgs"
  "List.map_filter failure_of (failed_attempts h r m k msgs) = msgs"
  by (induction msgs arbitrary: k; simp add: List.map_filter_simps)+

lemma run_events_marks:
  "List.map_filter mark_of (run_events h r m k msgs res) =
     failures_from k msgs @ (case res of Inr (Some b) \<Rightarrow> sleep_before (k + length msgs) @ [Fetched] | _ \<Rightarrow> [])"
  "List.map_filter failure_of (run_events h r m k msgs res) = msgs"
  by (simp_all add: run_events_def List.map_filter_simps split: sum.splits option.splits)

lemma attempts_failures_from [simp]:
  "length (filter is_attempt (failures_from k msgs)) = length msgs"
  by (induction msgs arbitrary: k) (simp_all add: sleep_before_def)

lemma attempts_sleep_before [simp]: "filter is_attempt (sleep_before k) = []"
  by (simp add: sleep_before_def)

section \<open>The session manager\<close>

lemma login_resolved:
  assumes "network st = (ms, Resolves r) # rest"
  shows "getSetCookie r = [] \<Longrightarrow> fst (login st) = Inl (Error ''Login failed - no cookies received'')"
    and "getSetCookie r = [] \<Longrightarrow> sessionCookies (snd (login st)) = sessionCookies st"
    and "getSetCookie r = [] \<Longrightarrow> sessionExpiry (snd (login st)) = sessionExpiry st"
    and "getSetCookie r \<noteq> [] \<Longrightarrow> fst (login st) = Inr (cookie_header (getSetCookie r))"
    and "getSetCookie r \<noteq> [] \<Longrightarrow> sessionCookies (snd (login st)) = Some (cookie_header (getSetCookie r))"
    and "getSetCookie r \<noteq> [] \<Longrightarrow> sessionExpiry (snd (login st)) = Some (clock st + ms + 1800000)"
    and "clock (snd (login st)) = clock st + ms"
  using assms by (simp_all add: login_def fetch_def Let_def)

lemma login_trace:
  "\<exists>es. trace (snd (login st)) = trace st @ es \<and> (\<forall>e\<in>set es. wire_event e)"
  by (auto simp: login_def fetch_def Let_def split: list.splits fetch_reply.splits)

lemma login_requests:
  "List.map_filter request_of (events_since st (snd (login st))) = [login_request st]"
  by (auto simp: login_def fetch_def Let_def events_since_def login_request_def
        List.map_filter_simps split: list.splits fetch_reply.splits)

lemma login_caches:
  "fst (login st) = Inr hdr \<Longrightarrow>
     sessionCookies (snd (login st)) = Some hdr \<and>
     sessionExpiry (snd (login st)) = Some (clock (snd (login st)) + 30 * 60 * 1000)"
  by (auto simp: login_def fetch_def Let_def split: list.splits fetch_reply.splits if_splits)

lemma login_env [simp]: "process_env (snd (login st)) = process_env st"
  by (auto simp: login_def fetch_def Let_def split: list.splits fetch_reply.splits)

lemma getSessionCookies_trace:
  "\<exists>es. trace (snd (getSessionCookies st)) = trace st @ es \<and> (\<forall>e\<in>set es. wire_event e)"
  using login_trace [of st] by (auto simp: getSessionCookies_def split: option.splits)

lemma getSessionCookies_traceD:
  "getSessionCookies st = (c, st') \<Longrightarrow> \<exists>es. trace st' = trace st @ es \<and> (\<forall>e\<in>set es. wire_event e)"
  using getSessionCookies_trace [of st] by simp

lemma getSessionCookies_invalid:
  "\<not> session_valid st \<Longrightarrow> getSessionCookies st = login st"
  by (auto simp: session_valid_def getSessionCookies_def split: option.splits)

lemma getSessionCookies_env [simp]: "process_env (snd (getSessionCookies st)) = process_env st"
  by (auto simp: getSessionCookies_def split: option.splits)

section \<open>One attempt\<close>

text \<open>Apart from the events of the session and the network, an attempt emits its backoff first and, when it returns a buffer, the line for the fetched document last.\<close>

lemma try_attempt_after_backoff:
  assumes "try_attempt h r m k st = (res, st')"
  shows "\<exists>es. trace st' = trace (backoff_step h r m k st) @ es \<and>
           filter (\<lambda>e. \<not> wire_event e) es =
             (case res of Inr b \<Rightarrow> [Console (Log_fetched (to_string h) (to_string r) (length b))]
                        | Inl err \<Rightarrow> [])"
  using assms unfolding try_attempt_def Let_def
  by (auto split: prod.splits sum.splits fetch_reply.splits if_splits
        dest!: getSessionCookies_traceD fetch_traceD read_pdf_trace simp: filter_wire)

lemma try_attempt_eventsE:
  assumes "try_attempt h r m k st = (res, st')"
  obtains es where "trace st' = trace st @ es"
    and "filter (\<lambda>e. \<not> wire_event e) es = before_attempt h r m k
           @ (case res of Inr b \<Rightarrow> [Console (Log_fetched (to_string h) (to_string r) (length b))]
                        | Inl err \<Rightarrow> [])"
proof -
  from try_attempt_after_backoff [OF assms] obtain es where
    "trace st' = trace (backoff_step h r m k st) @ es"
    "filter (\<lambda>e. \<not> wire_event e) es =
             (case res of Inr b \<Rightarrow> [Console (Log_fetched (to_string h) (to_string r) (length b))]
                        | Inl err \<Rightarrow> [])" by blast
  then have "trace st' = trace st @ (before_attempt h r m k @ es)"
    "filter (\<lambda>e. \<not> wire_event e) (before_attempt h r m k @ es) = before_attempt h r m k
           @ (case res of Inr b \<Rightarrow> [Console (Log_fetched (to_string h) (to_string r) (length b))]
                        | Inl err \<Rightarrow> [])"
    by (simp_all add: backoff_step_trace before_attempt_def)
  then show thesis by (rule that)
qed

lemma try_attempt_isPDF: "try_attempt h r m k st = (Inr b, st') \<Longrightarrow> isPDF b"
  unfolding try_attempt_def Let_def read_pdf_def backoff_step_def
  by (auto split: prod.splits sum.splits fetch_reply.splits if_splits)

lemma try_attempt_redirect:
  assumes "getSessionCookies (backoff_step h r m k st) = (Inr c, st2)"
      and "network st2 = (ms1, Resolves response) # net"
      and "status response = 302" and "login_redirect (location response)"
  shows "List.map_filter request_of (events_since st2 (snd (try_attempt h r m k st)))
           = Pdf_get (pdfUrl st h r) c True # login_request st
               # (case net of
                    (ms2, Resolves lr) # net' \<Rightarrow>
                      if getSetCookie lr = [] then []
                      else [Pdf_get (pdfUrl st h r) (cookie_header (getSetCookie lr)) False]
                  | _ \<Rightarrow> [])"
    and "fst (try_attempt h r m k st)
           = (case net of
                [] \<Rightarrow> Inl (TypeError ''fetch failed'')
              | (ms2, Rejects err) # net' \<Rightarrow> Inl err
              | (ms2, Resolves lr) # net' \<Rightarrow>
                  if getSetCookie lr = [] then Inl (Error ''Login failed - no cookies received'')
                  else (case net' of
                          [] \<Rightarrow> Inl (TypeError ''fetch failed'')
                        | (ms3, Rejects err) # net'' \<Rightarrow> Inl err
                        | (ms3, Resolves retryResponse) # net'' \<Rightarrow>
                            if \<not> ok retryResponse then Inl (http_error retryResponse)
                            else body_check retryResponse))"
    and "sessionCookies (snd (try_attempt h r m k st))
           = (case net of
                (ms2, Resolves lr) # net' \<Rightarrow>
                  if getSetCookie lr = [] then None else Some (cookie_header (getSetCookie lr))
              | _ \<Rightarrow> None)"
proof -
  have env: "process_env st2 = process_env st"
    using getSessionCookies_env [of "backoff_step h r m k st"] assms(1) by simp
  show "List.map_filter request_of (events_since st2 (snd (try_attempt h r m k st)))
           = Pdf_get (pdfUrl st h r) c True # login_request st
               # (case net of
                    (ms2, Resolves lr) # net' \<Rightarrow>
                      if getSetCookie lr = [] then []
                      else [Pdf_get (pdfUrl st h r) (cookie_header (getSetCookie lr)) False]
                  | _ \<Rightarrow> [])"
    using assms env unfolding try_attempt_def
    by (auto simp: Let_def fetch_def getSessionCookies_def login_def read_pdf_def events_since_def
          login_request_def baseUrl_def
          split: list.splits fetch_reply.splits sum.splits)
  show "fst (try_attempt h r m k st)
           = (case net of
                [] \<Rightarrow> Inl (TypeError ''fetch failed'')
              | (ms2, Rejects err) # net' \<Rightarrow> Inl err
              | (ms2, Resolves lr) # net' \<Rightarrow>
                  if getSetCookie lr = [] then Inl (Error ''Login failed - no cookies received'')
                  else (case net' of
                          [] \<Rightarrow> Inl (TypeError ''fetch failed'')
                        | (ms3, Rejects err) # net'' \<Rightarrow> Inl err
                        | (ms3, Resolves retryResponse) # net'' \<Rightarrow>
                            if \<not> ok retryResponse then Inl (http_error retryResponse)
                            else body_check retryResponse))"
    using assms unfolding try_attempt_def
    by (auto simp: Let_def fetch_def getSessionCookies_def login_def fst_read_pdf
          split: list.splits fetch_reply.splits)
  show "sessionCookies (snd (try_attempt h r m k st))
           = (case net of
                (ms2, Resolves lr) # net' \<Rightarrow>
                  if getSetCookie lr = [] then None else Some (cookie_header (getSetCookie lr))
              | _ \<Rightarrow> None)"
    using assms unfolding try_attempt_def
    by (auto simp: Let_def fetch_def getSessionCookies_def login_def read_pdf_def
          split: list.splits fetch_reply.splits sum.splits)
qed

section \<open>The loop of attempts\<close>

lemma attempt_loop_success:
  "fst (try_attempt h r m k st) = Inr b \<Longrightarrow> k \<le> m \<Longrightarrow>
     attempt_loop h r m k st = (Inr (Some b), snd (try_attempt h r m k st))"
  by (cases "try_attempt h r m k st") (simp add: attempt_loop.simps [of h r m k])

lemma attempt_loop_retry:
  "fst (try_attempt h r m k st) = Inl err \<Longrightarrow> k < m \<Longrightarrow>
     attempt_loop h r m k st =
       attempt_loop h r m (k + 1)
         (emit (Console (Err_attempt_failed k m (to_string h) (to_string r) (message err)))
            (snd (try_attempt h r m k st)))"
  by (cases "try_attempt h r m k st") (simp add: attempt_loop.simps [of h r m k])

lemma attempt_loop_final:
  "fst (try_attempt h r m k st) = Inl err \<Longrightarrow> k = m \<Longrightarrow>
     attempt_loop h r m k st =
       (Inl (Error (''Failed after '' @ show_nat m @ '' attempts: '' @ message err)),
        emit (Console (Err_attempt_failed k m (to_string h) (to_string r) (message err)))
          (snd (try_attempt h r m k st)))"
  by (cases "try_attempt h r m k st") (simp add: attempt_loop.simps [of h r m m])

lemma attempt_loop_events:
  assumes "attempt_loop h r m k st = (res, st')"
  shows "\<exists>es msgs. trace st' = trace st @ es \<and>
           filter (\<lambda>e. \<not> wire_event e) es = run_events h r m k msgs res \<and>
           run_outcome m k msgs res \<and> (res = Inr None \<longrightarrow> es = [])"
  using assms
proof (induction h r m k st arbitrary: res st' rule: attempt_loop.induct)
  case (1 h r m k st)
  show ?case
  proof (cases "k \<le> m")
    case False
    with "1.prems" have "res = Inr None" "st' = st"
      by (simp_all add: attempt_loop.simps)
    with False show ?thesis
      by (auto simp: run_events_def run_outcome_def intro!: exI [of _ "[]"])
  next
    case True
    obtain a st1 where ta: "try_attempt h r m k st = (a, st1)" by force
    from try_attempt_eventsE [OF ta] obtain es1 where
      t1: "trace st1 = trace st @ es1" and
      f1: "filter (\<lambda>e. \<not> wire_event e) es1 = before_attempt h r m k
           @ (case a of Inr b \<Rightarrow> [Console (Log_fetched (to_string h) (to_string r) (length b))]
                      | Inl err \<Rightarrow> [])" by blast
    show ?thesis
    proof (cases a)
      case (Inr b)
      with True ta "1.prems" have "res = Inr (Some b)" "st' = st1"
        by (simp_all add: attempt_loop.simps)
      with t1 f1 Inr True show ?thesis
        by (auto simp: run_events_def run_outcome_def intro!: exI [of _ es1] exI [of _ "[]"])
    next
      case (Inl err)
      define st2 where "st2 = emit (Console (Err_attempt_failed k m (to_string h) (to_string r) (message err))) st1"
      have t2: "trace st2 = trace st @ es1 @ [Console (Err_attempt_failed k m (to_string h) (to_string r) (message err))]"
        by (simp add: st2_def t1)
      show ?thesis
      proof (cases "k = m")
        case True
        with \<open>k \<le> m\<close> ta Inl "1.prems" have
          "res = Inl (Error (''Failed after '' @ show_nat m @ '' attempts: '' @ message err))" "st' = st2"
          by (simp_all add: attempt_loop.simps [of h r m m] st2_def)
        with t2 f1 Inl True show ?thesis
          by (auto simp: run_events_def run_outcome_def
                intro!: exI [of _ "es1 @ [Console (Err_attempt_failed k m (to_string h) (to_string r) (message err))]"]
                        exI [of _ "[message err]"])
      next
        case False
        with \<open>k \<le> m\<close> ta Inl "1.prems" have rec: "attempt_loop h r m (k + 1) st2 = (res, st')"
          by (simp add: attempt_loop.simps [of h r m k] st2_def)
        from "1.IH" [OF \<open>k \<le> m\<close> ta [symmetric] Inl st2_def False rec]
        obtain es2 msgs where
          t3: "trace st' = trace st2 @ es2" and
          f3: "filter (\<lambda>e. \<not> wire_event e) es2 = run_events h r m (k + 1) msgs res" and
          o3: "run_outcome m (k + 1) msgs res" and n3: "res = Inr None \<longrightarrow> es2 = []"
          by blast
        from o3 False \<open>k \<le> m\<close> have notNone: "res \<noteq> Inr None"
          by (auto simp: run_outcome_def)
        have "trace st' = trace st @ (es1 @ [Console (Err_attempt_failed k m (to_string h) (to_string r) (message err))] @ es2)"
          using t3 t2 by simp
        moreover have "filter (\<lambda>e. \<not> wire_event e) (es1 @ [Console (Err_attempt_failed k m (to_string h) (to_string r) (message err))] @ es2)
              = run_events h r m k (message err # msgs) res"
          using f1 f3 Inl by (simp add: run_events_def split: sum.splits option.splits)
        moreover have "run_outcome m k (message err # msgs) res"
          using o3 False \<open>k \<le> m\<close> by (auto simp: run_outcome_def split: sum.splits option.splits)
        ultimately show ?thesis using notNone by blast
      qed
    qed
  qed
qed

lemma attempt_loop_isPDF: "attempt_loop h r m k st = (Inr (Some b), st') \<Longrightarrow> isPDF b"
proof (induction h r m k st rule: attempt_loop.induct)
  case (1 h r m k st)
  show ?case
  proof (cases "k \<le> m")
    case False
    with "1.prems" show ?thesis by (simp add: attempt_loop.simps)
  next
    case True
    obtain a st1 where ta: "try_attempt h r m k st = (a, st1)" by force
    show ?thesis
    proof (cases a)
      case (Inr b')
      with True ta "1.prems" have "b' = b" by (simp add: attempt_loop.simps)
      with ta Inr show ?thesis using try_attempt_isPDF by blast
    next
      case (Inl err)
      with True ta "1.prems" have ne: "k \<noteq> m"
        by (auto simp: attempt_loop.simps [of h r m k] Let_def)
      with True ta Inl "1.prems" "1.IH" [OF True ta [symmetric] Inl refl ne] show ?thesis
        by (simp add: attempt_loop.simps [of h r m k] Let_def)
    qed
  qed
qed

lemma generatePdfForReservation_default:
  assumes "generatePdfForReservation h r 3 st = (res, st')"
  shows "\<exists>es. trace st' = trace st @ es \<and>
           List.map_filter fetched_of es = (case res of Inr (Some b) \<Rightarrow> [(to_string h, to_string r)] | _ \<Rightarrow> []) \<and>
           List.map_filter gave_up_of es = [] \<and> List.map_filter step_of es = [] \<and>
           List.map_filter progress_of es = (case res of Inr (Some b) \<Rightarrow> [Ended] | _ \<Rightarrow> [])"
    and "res \<noteq> Inr None"
    and "res = Inr (Some b) \<Longrightarrow> isPDF b"
proof -
  from assms have al: "attempt_loop h r 3 1 st = (res, st')"
    by (simp add: generatePdfForReservation_def)
  from attempt_loop_events [OF al] obtain es msgs where
    t: "trace st' = trace st @ es" and
    f: "filter (\<lambda>e. \<not> wire_event e) es = run_events h r 3 1 msgs res" and
    o: "run_outcome 3 1 msgs res" by blast
  have "List.map_filter fetched_of es = (case res of Inr (Some b) \<Rightarrow> [(to_string h, to_string r)] | _ \<Rightarrow> [])"
    by (subst map_filter_wire) (simp_all add: f run_events_proj)
  moreover have "List.map_filter gave_up_of es = []"
    by (subst map_filter_wire) (simp_all add: f run_events_proj)
  moreover have "List.map_filter step_of es = []"
    by (subst map_filter_wire) (simp_all add: f run_events_proj)
  moreover have "List.map_filter progress_of es = (case res of Inr (Some b) \<Rightarrow> [Ended] | _ \<Rightarrow> [])"
    by (subst map_filter_wire) (simp_all add: f run_events_proj)
  ultimately show "\<exists>es. trace st' = trace st @ es \<and>
           List.map_filter fetched_of es = (case res of Inr (Some b) \<Rightarrow> [(to_string h, to_string r)] | _ \<Rightarrow> []) \<and>
           List.map_filter gave_up_of es = [] \<and> List.map_filter step_of es = [] \<and>
           List.map_filter progress_of es = (case res of Inr (Some b) \<Rightarrow> [Ended] | _ \<Rightarrow> [])"
    using t by blast
  from o show "res \<noteq> Inr None" by (auto simp: run_outcome_def)
  show "res = Inr (Some b) \<Longrightarrow> isPDF b" using al attempt_loop_isPDF by blast
qed

lemma generate_isPDF:
  assumes "fst (generatePdfForReservation h r m st) = Inr (Some buf)"
  shows "take 4 buf = ''%PDF''"
proof -
  obtain st' where "attempt_loop h r m 1 st = (Inr (Some buf), st')"
    using assms by (cases "attempt_loop h r m 1 st") (simp add: generatePdfForReservation_def)
  from attempt_loop_isPDF [OF this] show ?thesis by (simp add: isPDF_iff)
qed

section \<open>Groups and batches\<close>

lemma groups_Nil [simp]: "groups [] = []"
  by (subst groups.simps) simp

lemma groups_Nil_iff: "groups xs = [] \<longleftrightarrow> xs = []"
  by (subst groups.simps) simp

lemma groups_drop:
  "i < length rs \<Longrightarrow> groups (drop i rs) = take 20 (drop i rs) # groups (drop (i + 20) rs)"
  by (subst groups.simps) (simp add: add.commute)

lemma groups_drop_Nil: "length rs \<le> i \<Longrightarrow> groups (drop i rs) = []"
  by (subst groups.simps) simp

lemma concat_groups: "concat (groups xs) = xs"
proof (induction xs rule: groups.induct)
  case (1 xs)
  then show ?case by (subst groups.simps) simp
qed

lemma groups_sizes: "g \<in> set (groups xs) \<Longrightarrow> 0 < length g \<and> length g \<le> 20"
proof (induction xs rule: groups.induct)
  case (1 xs)
  show ?case
  proof (cases "xs = []")
    case True
    with "1.prems" show ?thesis by (simp add: groups.simps)
  next
    case False
    with "1.prems" have "g = take 20 xs \<or> g \<in> set (groups (drop 20 xs))"
      by (subst (asm) groups.simps) simp
    with False "1.IH" show ?thesis by auto
  qed
qed

lemma groups_full: "g \<in> set (butlast (groups xs)) \<Longrightarrow> length g = 20"
proof (induction xs rule: groups.induct)
  case (1 xs)
  show ?case
  proof (cases "xs = []")
    case True
    with "1.prems" show ?thesis by (simp add: groups.simps)
  next
    case False
    then have g: "groups xs = take 20 xs # groups (drop 20 xs)" by (subst groups.simps) simp
    show ?thesis
    proof (cases "groups (drop 20 xs) = []")
      case True
      with g "1.prems" show ?thesis by simp
    next
      case ne: False
      then have "20 < length xs" by (simp add: groups_Nil_iff)
      with g ne "1.prems" "1.IH" [OF False] show ?thesis by auto
    qed
  qed
qed

lemma groups_45: "groups (replicate 45 x) = [replicate 20 x, replicate 20 x, replicate 5 x]"
  by (simp add: groups.simps)

lemma successes_simps [simp]:
  "successes [] = []"
  "successes (None # rs) = successes rs"
  "successes (Some p # rs) = p # successes rs"
  by (simp_all add: successes_def)

lemma successes_append [simp]: "successes (xs @ ys) = successes xs @ successes ys"
  by (simp add: successes_def)

section \<open>The tasks of a batch\<close>

text \<open>
  A turn of a task only adds to the trace. While the task stays suspended the observers of
  the batch loop see nothing of it; when it settles they see the one line that ends it.
\<close>

lemma awake_fields [simp]:
  "trace (awake due st) = trace st"
  "process_env (awake due st) = process_env st"
  "network (awake due st) = network st"
  "sessionCookies (awake due st) = sessionCookies st"
  "sessionExpiry (awake due st) = sessionExpiry st"
  "clock (awake due st) = max (clock st) due"
  by (simp_all add: awake_def)

lemma send_traceD: "send req st = (dr, st') \<Longrightarrow> trace st' = trace st @ [Fetch req]"
  by (auto simp: send_def split: list.splits)

lemma login_send_traceD:
  "login_send st = (dr, st') \<Longrightarrow> \<exists>u b req. trace st' = trace st @ [Console (Log_logging_in u b), Fetch req]"
  by (auto simp: login_send_def Let_def dest!: send_traceD)

lemma login_receive_traceD:
  "login_receive reply st = (res, st') \<Longrightarrow> \<exists>es. trace st' = trace st @ es \<and> (\<forall>e\<in>set es. wire_event e)"
  by (auto simp: login_receive_def Let_def split: fetch_reply.splits if_splits)

lemma quiet_Nil [simp]: "quiet []"
  by (simp add: quiet_def List.map_filter_simps)

lemma quiet_append [simp]: "quiet (es @ es') \<longleftrightarrow> quiet es \<and> quiet es'"
  by (auto simp: quiet_def)

lemma quiet_wire: "\<forall>e\<in>set es. wire_event e \<Longrightarrow> quiet es"
  by (simp add: quiet_def map_filter_wire)

lemma quiet_Cons2 [simp]: "quiet (e # e' # es) \<longleftrightarrow> quiet [e] \<and> quiet (e' # es)"
  using quiet_append [of "[e]" "e' # es"] by simp

lemma quiet_simps [simp]:
  "quiet [Fetch req]"
  "quiet [Console (Log_logging_in u b)]"
  "quiet [Console Log_session_expired]"
  "quiet [Console (Log_retry k m h r d)]"
  "quiet [Delay (backoffDelay k)]"
  "quiet [Console (Err_attempt_failed k m h r msg)]"
  by (simp_all add: quiet_def List.map_filter_simps)

lemma look_up_session_events:
  assumes "look_up_session k st = (out, st')"
  shows "\<exists>es d p. out = Suspended d p \<and> attempt_of p = k \<and> trace st' = trace st @ es \<and> quiet es"
  using assms
  by (auto simp: look_up_session_def Let_def split: option.splits if_splits prod.splits
      dest!: login_send_traceD)

lemma next_attempt_events:
  assumes "next_attempt t m k st = (out, st')" and "k \<le> m"
  shows "\<exists>es d p. out = Suspended d p \<and> attempt_of p = k \<and> trace st' = trace st @ es \<and> quiet es"
  using assms
  by (auto simp: next_attempt_def split: if_splits dest!: look_up_session_events)

lemma closes_quiet: "quiet es \<Longrightarrow> closes t out m es' \<Longrightarrow> closes t out m (es @ es')"
  by (auto simp: closes_def quiet_def split: outcome.splits option.splits)

lemma attempt_failed_events:
  assumes "attempt_failed t m k err st = (out, st')" and "k \<le> m"
  shows "\<exists>es. trace st' = trace st @ es \<and> closes t out m es"
proof (cases "k = m")
  case True
  with assms show ?thesis
    by (auto simp: attempt_failed_def Let_def closes_def List.map_filter_simps)
next
  case False
  with assms(2) have le: "k + 1 \<le> m" by simp
  define st1 where "st1 = emit (Console (Err_attempt_failed k m (to_string (htl_code (booking t)))
                  (to_string (res_id (booking t))) (message err))) st"
  from assms(1) False have "next_attempt t m (k + 1) st1 = (out, st')"
    by (simp add: attempt_failed_def Let_def st1_def)
  from next_attempt_events [OF this le] obtain es d p where
    "out = Suspended d p" "attempt_of p = k + 1" "trace st' = trace st1 @ es" "quiet es" by blast
  with le show ?thesis
    by (auto simp: st1_def closes_def quiet_def List.map_filter_simps)
qed

lemma finish_events:
  assumes "finish t m k response st = (out, st')" and "k \<le> m"
  shows "\<exists>es. trace st' = trace st @ es \<and> closes t out m es"
proof (cases "read_pdf (htl_code (booking t)) (res_id (booking t)) response st")
  case (Pair res st1)
  show ?thesis
  proof (cases res)
    case (Inl err)
    with Pair have "st1 = st"
      by (auto simp: read_pdf_def split: sum.splits if_splits)
    with Pair Inl assms show ?thesis
      by (auto simp: finish_def dest!: attempt_failed_events)
  next
    case (Inr buffer)
    with Pair have "isPDF buffer"
      "st1 = emit (Console (Log_fetched (to_string (htl_code (booking t))) (to_string (res_id (booking t))) (length buffer))) st"
      by (auto simp: read_pdf_def split: sum.splits if_splits)
    with Pair Inr assms show ?thesis
      by (auto simp: finish_def closes_def List.map_filter_simps result_of_def label_def entry_ok_def)
  qed
qed

lemma resume_events:
  assumes "resume t m due ph st = (out, st')" and "attempt_of ph \<le> m"
  shows "\<exists>es. trace st' = trace st @ es \<and> closes t out m es"
proof (cases ph)
  case (Backing_off k)
  with assms have "look_up_session k (awake due st) = (out, st')" by (simp add: resume_def)
  from look_up_session_events [OF this] Backing_off assms(2) show ?thesis
    by (auto simp: closes_def quiet_def)
next
  case (Session_cached k c)
  with assms show ?thesis
    by (auto simp: resume_def closes_def quiet_def List.map_filter_simps split: prod.splits dest!: send_traceD)
next
  case (Logging_in k reply)
  obtain res st1 where lr: "login_receive reply (awake due st) = (res, st1)" by force
  from login_receive_traceD [OF lr] obtain es1 where
    t1: "trace st1 = trace st @ es1" and w1: "quiet es1" by (auto dest: quiet_wire)
  show ?thesis
  proof (cases res)
    case (Inl err)
    with assms Logging_in lr have "attempt_failed t m k err st1 = (out, st')"
      by (simp add: resume_def)
    from attempt_failed_events [OF this] assms(2) Logging_in obtain es2 where
      "trace st' = trace st1 @ es2" "closes t out m es2" by auto
    with t1 w1 show ?thesis by (auto intro: closes_quiet)
  next
    case (Inr cookies)
    with assms Logging_in lr obtain d r where
      "send (Pdf_get (url t) cookies True) st1 = ((d, r), st')" "out = Suspended d (Fetching k r)"
      by (auto simp: resume_def split: prod.splits)
    with t1 w1 assms(2) Logging_in show ?thesis
      by (auto simp: closes_def quiet_def List.map_filter_simps dest!: send_traceD)
  qed
next
  case (Fetching k reply)
  show ?thesis
  proof (cases reply)
    case (Rejects err)
    with assms Fetching have "attempt_failed t m k err (awake due st) = (out, st')"
      by (simp add: resume_def)
    from attempt_failed_events [OF this] assms(2) Fetching show ?thesis by auto
  next
    case (Resolves response)
    consider (relogin) "status response = 302 \<and> login_redirect (location response)"
      | (bad) "\<not> (status response = 302 \<and> login_redirect (location response))"
              "\<not> ok response \<and> status response \<noteq> 302"
      | (body) "\<not> (status response = 302 \<and> login_redirect (location response))"
              "\<not> (\<not> ok response \<and> status response \<noteq> 302)"
      by blast
    then show ?thesis
    proof cases
      case relogin
      with assms Fetching Resolves obtain d r where
        "login_send ((emit (Console Log_session_expired) (awake due st))\<lparr>sessionCookies := None\<rparr>) = ((d, r), st')"
        "out = Suspended d (Logging_in_again k r)"
        by (auto simp: resume_def Let_def split: prod.splits)
      with assms(2) Fetching show ?thesis
        by (auto simp: closes_def quiet_def List.map_filter_simps dest!: login_send_traceD)
    next
      case bad
      with assms Fetching Resolves
      have "attempt_failed t m k (http_error response) (awake due st) = (out, st')"
        by (auto simp: resume_def)
      from attempt_failed_events [OF this] assms(2) Fetching show ?thesis by auto
    next
      case body
      with assms Fetching Resolves
      have "finish t m k response (awake due st) = (out, st')"
        by (auto simp: resume_def)
      from finish_events [OF this] assms(2) Fetching show ?thesis by auto
    qed
  qed
next
  case (Logging_in_again k reply)
  obtain res st1 where lr: "login_receive reply (awake due st) = (res, st1)" by force
  from login_receive_traceD [OF lr] obtain es1 where
    t1: "trace st1 = trace st @ es1" and w1: "quiet es1" by (auto dest: quiet_wire)
  show ?thesis
  proof (cases res)
    case (Inl err)
    with assms Logging_in_again lr have "attempt_failed t m k err st1 = (out, st')"
      by (simp add: resume_def)
    from attempt_failed_events [OF this] assms(2) Logging_in_again obtain es2 where
      "trace st' = trace st1 @ es2" "closes t out m es2" by auto
    with t1 w1 show ?thesis by (auto intro: closes_quiet)
  next
    case (Inr cookies)
    with assms Logging_in_again lr obtain d r where
      "send (Pdf_get (url t) cookies False) st1 = ((d, r), st')" "out = Suspended d (Retrying k r)"
      by (auto simp: resume_def split: prod.splits)
    with t1 w1 assms(2) Logging_in_again show ?thesis
      by (auto simp: closes_def quiet_def List.map_filter_simps dest!: send_traceD)
  qed
next
  case (Retrying k reply)
  show ?thesis
  proof (cases reply)
    case (Rejects err)
    with assms Retrying have "attempt_failed t m k err (awake due st) = (out, st')"
      by (simp add: resume_def)
    from attempt_failed_events [OF this] assms(2) Retrying show ?thesis by auto
  next
    case (Resolves response)
    show ?thesis
    proof (cases "ok response")
      case False
      with assms Retrying Resolves
      have "attempt_failed t m k (http_error response) (awake due st) = (out, st')"
        by (auto simp: resume_def)
      from attempt_failed_events [OF this] assms(2) Retrying show ?thesis by auto
    next
      case True
      with assms Retrying Resolves
      have "finish t m k response (awake due st) = (out, st')"
        by (auto simp: resume_def)
      from finish_events [OF this] assms(2) Retrying show ?thesis by auto
    qed
  qed
qed

section \<open>The event loop\<close>

text \<open>
  Every task of a batch is suspended when \<^verbatim>\<open>batch.map\<close> returns, and the event loop
  settles each of them exactly once. When the session is cached the first turns of the loop
  are the microtasks of the tasks, which send their requests.
\<close>

lemma next_up_in: "ws \<noteq> [] \<Longrightarrow> next_up ws \<in> set ws"
proof (cases "filter microtask ws")
  case Nil
  assume "ws \<noteq> []"
  with Nil show ?thesis
    using arg_min_list_in [of ws due_time] by (simp add: next_up_def)
next
  case (Cons w rest)
  have "set (filter microtask ws) \<subseteq> set ws" by auto
  with Cons have "w \<in> set ws" by auto
  with Cons show ?thesis by (simp add: next_up_def)
qed

lemma batch_task_events:
  assumes "batch_task n j idx x m st = (t, out, st')" and "1 \<le> m"
  shows "\<exists>es d p. out = Suspended d p \<and> attempt_of p \<le> m \<and> booking t = x \<and> place t = idx \<and>
           trace st' = trace st @ es \<and>
           List.map_filter step_of es = [Task (to_string (htl_code x)) (to_string (res_id x)) j n] \<and>
           List.map_filter progress_of es = [Begun] \<and>
           List.map_filter fetched_of es = [] \<and> List.map_filter gave_up_of es = []"
proof -
  define st1 where "st1 = emit (Console (Log_generating (to_string (res_id x)) (to_string (htl_code x)) j n)) st"
  from assms(1) have t: "t = \<lparr>place = idx, booking = x, url = pdfUrl st1 (htl_code x) (res_id x)\<rparr>"
    and na: "next_attempt t m 1 st1 = (out, st')"
    by (auto simp: batch_task_def Let_def st1_def split: prod.splits)
  from next_attempt_events [OF na assms(2)] obtain es d p where
    "out = Suspended d p" "attempt_of p = 1" "trace st' = trace st1 @ es" "quiet es" by blast
  with assms(2) t show ?thesis
    by (auto simp: st1_def quiet_def)
qed

lemma launch_events:
  assumes "launch n i idx xs m st = ((ws, dn), st')" and "1 \<le> m"
  shows "\<exists>es. trace st' = trace st @ es \<and> dn = [] \<and> length ws = length xs \<and>
           (\<forall>w\<in>set ws. attempt_of (snd (snd w)) \<le> m) \<and>
           List.map_filter step_of es = task_steps n (i + idx + 1) xs \<and>
           List.map_filter progress_of es = replicate (length xs) Begun \<and>
           List.map_filter fetched_of es = [] \<and> List.map_filter gave_up_of es = []"
  using assms(1)
proof (induction xs arbitrary: idx st ws dn st')
  case Nil
  then show ?case by simp
next
  case (Cons x xs)
  obtain t out st1 where bt: "batch_task n (i + idx + 1) idx x m st = (t, out, st1)"
    by (cases "batch_task n (i + idx + 1) idx x m st") auto
  obtain ws2 dn2 st2 where l: "launch n i (idx + 1) xs m st1 = ((ws2, dn2), st2)"
    by (cases "launch n i (idx + 1) xs m st1") auto
  from batch_task_events [OF bt assms(2)] obtain es1 d p where
    o: "out = Suspended d p" and a: "attempt_of p \<le> m" and
    t1: "trace st1 = trace st @ es1" and
    s1: "List.map_filter step_of es1 = [Task (to_string (htl_code x)) (to_string (res_id x)) (i + idx + 1) n]" and
    p1: "List.map_filter progress_of es1 = [Begun]" and
    f1: "List.map_filter fetched_of es1 = []" and g1: "List.map_filter gave_up_of es1 = []"
    by blast
  from Cons.IH [OF l] obtain es2 where
    t2: "trace st2 = trace st1 @ es2" and d2: "dn2 = []" and l2: "length ws2 = length xs" and
    a2: "\<forall>w\<in>set ws2. attempt_of (snd (snd w)) \<le> m" and
    s2: "List.map_filter step_of es2 = task_steps n (i + (idx + 1) + 1) xs" and
    p2: "List.map_filter progress_of es2 = replicate (length xs) Begun" and
    f2: "List.map_filter fetched_of es2 = []" and g2: "List.map_filter gave_up_of es2 = []"
    by blast
  from Cons.prems bt l o have r: "ws = (t, d, p) # ws2" "dn = dn2" "st' = st2" by simp_all
  have "trace st' = trace st @ (es1 @ es2)" using t1 t2 r by simp
  moreover have "List.map_filter step_of (es1 @ es2) = task_steps n (i + idx + 1) (x # xs)"
    using s1 s2 by simp
  moreover have "List.map_filter progress_of (es1 @ es2) = replicate (length (x # xs)) Begun"
    using p1 p2 by simp
  moreover have "List.map_filter fetched_of (es1 @ es2) = []" "List.map_filter gave_up_of (es1 @ es2) = []"
    using f1 f2 g1 g2 by simp_all
  ultimately show ?case using r d2 l2 a a2 by (intro exI [of _ "es1 @ es2"]) simp
qed

lemma turn_events:
  assumes "turn m ws dn st = (ws1, dn1, st1)" and "ws \<noteq> []"
      and "\<forall>w\<in>set ws. attempt_of (snd (snd w)) \<le> m"
  shows "\<exists>es. trace st1 = trace st @ es \<and> List.map_filter step_of es = [] \<and>
           (\<forall>w\<in>set ws1. attempt_of (snd (snd w)) \<le> m) \<and>
           ((length ws1 = length ws \<and> dn1 = dn \<and> quiet es) \<or>
            (Suc (length ws1) = length ws \<and>
             (\<exists>j. dn1 = dn @ [(j, None)] \<and> List.map_filter progress_of es = [Ended]
                 \<and> List.map_filter fetched_of es = [] \<and> length (List.map_filter gave_up_of es) = 1)) \<or>
            (Suc (length ws1) = length ws \<and>
             (\<exists>j p. dn1 = dn @ [(j, Some p)] \<and> List.map_filter progress_of es = [Ended]
                 \<and> List.map_filter fetched_of es = [label p] \<and> List.map_filter gave_up_of es = []
                 \<and> entry_ok p)))"
proof -
  obtain t due ph where nu: "next_up ws = (t, due, ph)" by (cases "next_up ws") auto
  with next_up_in [OF assms(2)] have mem: "(t, due, ph) \<in> set ws" by simp
  with assms(3) have a: "attempt_of ph \<le> m" by force
  obtain out st' where r: "resume t m due ph st = (out, st')" by force
  from resume_events [OF r a] obtain es where
    t: "trace st' = trace st @ es" and c: "closes t out m es" by blast
  have len: "Suc (length (remove1 (t, due, ph) ws)) = length ws"
    using mem by (simp add: length_remove1) (cases ws, auto)
  have sub: "\<forall>w\<in>set (remove1 (t, due, ph) ws). attempt_of (snd (snd w)) \<le> m"
    using assms(3) by (meson notin_set_remove1)
  show ?thesis
  proof (cases out)
    case (Suspended d p)
    with assms(1) nu r have "ws1 = remove1 (t, due, ph) ws @ [(t, d, p)]" "dn1 = dn" "st1 = st'"
      by (simp_all add: turn_def)
    with t c Suspended len sub show ?thesis
      by (auto simp: closes_def)
  next
    case (Settled res)
    with assms(1) nu r have e: "ws1 = remove1 (t, due, ph) ws" "dn1 = dn @ [(place t, res)]" "st1 = st'"
      by (simp_all add: turn_def)
    show ?thesis
    proof (cases res)
      case None
      with e t c Settled len sub show ?thesis
        by (auto simp: closes_def)
    next
      case (Some p)
      with e t c Settled len sub show ?thesis
        by (auto simp: closes_def)
    qed
  qed
qed

lemma event_loop_events:
  assumes "event_loop m ws dn st = (dn', st')"
      and "\<forall>w\<in>set ws. attempt_of (snd (snd w)) \<le> m"
  shows "\<exists>es new. trace st' = trace st @ es \<and> dn' = dn @ new \<and> length new = length ws \<and>
           List.map_filter step_of es = [] \<and>
           List.map_filter progress_of es = replicate (length ws) Ended \<and>
           mset (List.map_filter fetched_of es) = mset (map label (successes (map snd new))) \<and>
           length (List.map_filter gave_up_of es) + length (successes (map snd new)) = length ws \<and>
           (\<forall>p\<in>set (successes (map snd new)). entry_ok p)"
  using assms
proof (induction m ws dn st arbitrary: dn' st' rule: event_loop.induct)
  case (1 m ws dn st)
  show ?case
  proof (cases "ws = []")
    case True
    with "1.prems"(1) show ?thesis by (simp add: event_loop.simps)
  next
    case False
    obtain ws1 dn1 st1 where tn: "turn m ws dn st = (ws1, dn1, st1)"
      by (cases "turn m ws dn st") auto
    with "1.prems"(1) False have rec: "event_loop m ws1 dn1 st1 = (dn', st')"
      by (subst (asm) event_loop.simps) simp
    from turn_events [OF tn False "1.prems"(2)] obtain es1 where
      t1: "trace st1 = trace st @ es1" and s1: "List.map_filter step_of es1 = []" and
      a1: "\<forall>w\<in>set ws1. attempt_of (snd (snd w)) \<le> m" and
      c1: "(length ws1 = length ws \<and> dn1 = dn \<and> quiet es1) \<or>
            (Suc (length ws1) = length ws \<and>
             (\<exists>j. dn1 = dn @ [(j, None)] \<and> List.map_filter progress_of es1 = [Ended]
                 \<and> List.map_filter fetched_of es1 = [] \<and> length (List.map_filter gave_up_of es1) = 1)) \<or>
            (Suc (length ws1) = length ws \<and>
             (\<exists>j p. dn1 = dn @ [(j, Some p)] \<and> List.map_filter progress_of es1 = [Ended]
                 \<and> List.map_filter fetched_of es1 = [label p] \<and> List.map_filter gave_up_of es1 = []
                 \<and> entry_ok p))" by blast
    from "1.IH" [OF False tn [symmetric] refl rec a1] obtain es2 new2 where
      t2: "trace st' = trace st1 @ es2" and d2: "dn' = dn1 @ new2" and l2: "length new2 = length ws1" and
      s2: "List.map_filter step_of es2 = []" and
      p2: "List.map_filter progress_of es2 = replicate (length ws1) Ended" and
      f2: "mset (List.map_filter fetched_of es2) = mset (map label (successes (map snd new2)))" and
      g2: "length (List.map_filter gave_up_of es2) + length (successes (map snd new2)) = length ws1" and
      e2: "\<forall>p\<in>set (successes (map snd new2)). entry_ok p" by blast
    have tr: "trace st' = trace st @ (es1 @ es2)" using t1 t2 by simp
    have st: "List.map_filter step_of (es1 @ es2) = []" using s1 s2 by simp
    from c1 show ?thesis
    proof (elim disjE conjE exE)
      assume "length ws1 = length ws" "dn1 = dn" "quiet es1"
      with tr st d2 l2 p2 f2 g2 e2 show ?thesis
        by (intro exI [of _ "es1 @ es2"] exI [of _ new2]) (simp add: quiet_def)
    next
      fix j
      assume "Suc (length ws1) = length ws" "dn1 = dn @ [(j, None)]"
        "List.map_filter progress_of es1 = [Ended]" "List.map_filter fetched_of es1 = []"
        "length (List.map_filter gave_up_of es1) = 1"
      with tr st d2 l2 p2 f2 g2 e2 show ?thesis
        by (intro exI [of _ "es1 @ es2"] exI [of _ "(j, None) # new2"])
           (auto simp flip: replicate_Suc)
    next
      fix j p
      assume "Suc (length ws1) = length ws" "dn1 = dn @ [(j, Some p)]"
        "List.map_filter progress_of es1 = [Ended]" "List.map_filter fetched_of es1 = [label p]"
        "List.map_filter gave_up_of es1 = []" "entry_ok p"
      with tr st d2 l2 p2 f2 g2 e2 show ?thesis
        by (intro exI [of _ "es1 @ es2"] exI [of _ "(j, Some p) # new2"])
           (auto simp flip: replicate_Suc)
    qed
  qed
qed

lemma mset_successes: "mset (successes rs) = image_mset the (filter_mset (\<lambda>r. r \<noteq> None) (mset rs))"
  by (simp add: successes_def)

lemma successes_sorted:
  "mset (successes (map snd (sort_key fst new))) = mset (successes (map snd new))"
  by (simp add: mset_successes)

lemma batchPromises_events:
  assumes "batchPromises n i idx xs st = (results, st')"
  shows "\<exists>es. trace st' = trace st @ es \<and>
           List.map_filter step_of es = task_steps n (i + idx + 1) xs \<and>
           mset (List.map_filter fetched_of es) = mset (map label (successes results)) \<and>
           length (List.map_filter gave_up_of es) + length (successes results) = length xs \<and>
           List.map_filter progress_of es = replicate (length xs) Begun @ replicate (length xs) Ended \<and>
           (\<forall>p\<in>set (successes results). entry_ok p)"
proof -
  obtain ws dn st1 where l: "launch n i idx xs 3 st = ((ws, dn), st1)"
    by (cases "launch n i idx xs 3 st") auto
  obtain dn' st2 where e: "event_loop 3 ws dn st1 = (dn', st2)" by force
  from assms l e have r: "results = map snd (sort_key fst dn')" "st' = st2"
    by (simp_all add: batchPromises_def)
  from launch_events [OF l] obtain es1 where
    t1: "trace st1 = trace st @ es1" and d1: "dn = []" and l1: "length ws = length xs" and
    a1: "\<forall>w\<in>set ws. attempt_of (snd (snd w)) \<le> 3" and
    s1: "List.map_filter step_of es1 = task_steps n (i + idx + 1) xs" and
    p1: "List.map_filter progress_of es1 = replicate (length xs) Begun" and
    f1: "List.map_filter fetched_of es1 = []" and g1: "List.map_filter gave_up_of es1 = []"
    by auto
  from event_loop_events [OF e a1] d1 obtain es2 where
    t2: "trace st2 = trace st1 @ es2" and
    s2: "List.map_filter step_of es2 = []" and
    p2: "List.map_filter progress_of es2 = replicate (length ws) Ended" and
    f2: "mset (List.map_filter fetched_of es2) = mset (map label (successes (map snd dn')))" and
    g2: "length (List.map_filter gave_up_of es2) + length (successes (map snd dn')) = length ws" and
    e2: "\<forall>p\<in>set (successes (map snd dn')). entry_ok p" by auto
  have ms: "mset (successes results) = mset (successes (map snd dn'))"
    unfolding r by (rule successes_sorted)
  then have len: "length (successes results) = length (successes (map snd dn'))"
    by (rule mset_eq_length)
  have set: "set (successes results) = set (successes (map snd dn'))"
    using ms by (rule mset_eq_setD)
  have "mset (map label (successes results)) = mset (map label (successes (map snd dn')))"
    using ms by (metis mset_map)
  with t1 t2 s1 s2 p1 p2 f1 f2 g1 g2 e2 l1 r len set show ?thesis
    by (intro exI [of _ "es1 @ es2"]) simp
qed

lemma overlapped_append:
  "\<forall>f\<in>set fs. \<not> announcement f \<Longrightarrow> overlapped (fs @ gs) = overlapped gs"
proof (induction fs)
  case Nil
  then show ?case by simp
next
  case (Cons f fs)
  then show ?case by (cases f) simp_all
qed

lemma batch_task_fields:
  assumes "batch_task n j idx x m st = (t, out, st')"
  shows "sessionCookies st' = sessionCookies st \<and> sessionExpiry st' = sessionExpiry st
         \<and> clock st' = clock st"
  using assms
  by (auto simp: batch_task_def next_attempt_def look_up_session_def login_send_def send_def Let_def
      split: if_splits option.splits prod.splits list.splits)

lemma batch_task_flight:
  assumes "batch_task n j idx x m st = (t, out, st')" and "1 \<le> m"
  shows "if session_valid st
         then (\<exists>d c. out = Suspended d (Session_cached 1 c)) \<and>
              List.map_filter flight_of (events_since st st') = []
         else List.map_filter flight_of (events_since st st') = [Sent]"
  using assms
  by (auto simp: batch_task_def next_attempt_def look_up_session_def login_send_def send_def Let_def
      session_valid_def events_since_def
      split: if_splits option.splits prod.splits list.splits)

lemma launch_flight:
  assumes "launch n i idx xs m st = ((ws, dn), st')" and "1 \<le> m"
  shows "\<exists>es. trace st' = trace st @ es \<and>
          (if session_valid st
           then (\<forall>w\<in>set ws. microtask w) \<and> List.map_filter flight_of es = []
           else List.map_filter flight_of es = replicate (length xs) Sent)"
  using assms(1)
proof (induction xs arbitrary: idx st ws dn st')
  case Nil
  then show ?case by simp
next
  case (Cons x xs)
  obtain t out st1 where bt: "batch_task n (i + idx + 1) idx x m st = (t, out, st1)"
    by (cases "batch_task n (i + idx + 1) idx x m st") auto
  obtain ws2 dn2 st2 where l: "launch n i (idx + 1) xs m st1 = ((ws2, dn2), st2)"
    by (cases "launch n i (idx + 1) xs m st1") auto
  from batch_task_events [OF bt assms(2)] obtain es1 d p where
    o: "out = Suspended d p" and t1: "trace st1 = trace st @ es1" by blast
  from batch_task_fields [OF bt] have sv: "session_valid st1 = session_valid st"
    by (auto simp: session_valid_def split: option.splits)
  from Cons.prems bt l o have r: "ws = (t, d, p) # ws2" "st' = st2" by simp_all
  from Cons.IH [OF l] obtain es2 where
    t2: "trace st2 = trace st1 @ es2" and
    f2: "if session_valid st1
           then (\<forall>w\<in>set ws2. microtask w) \<and> List.map_filter flight_of es2 = []
           else List.map_filter flight_of es2 = replicate (length xs) Sent" by blast
  have e1: "events_since st st1 = es1" using t1 by simp
  from batch_task_flight [OF bt assms(2)] o
  have f1: "if session_valid st then (\<exists>c. p = Session_cached 1 c) \<and> List.map_filter flight_of es1 = []
            else List.map_filter flight_of es1 = [Sent]"
    unfolding e1 by (auto split: if_splits)
  have "trace st' = trace st @ (es1 @ es2)" using t1 t2 r by simp
  moreover have "if session_valid st
           then (\<forall>w\<in>set ws. microtask w) \<and> List.map_filter flight_of (es1 @ es2) = []
           else List.map_filter flight_of (es1 @ es2) = replicate (length (x # xs)) Sent"
    using f1 f2 sv r by (auto split: if_splits)
  ultimately show ?case by blast
qed

lemma turn_microtask:
  assumes "microtask w"
  shows "\<exists>t due k c d r st1.
           w = (t, due, Session_cached k c) \<and>
           turn m (w # ws) dn st = (ws @ [(t, d, Fetching k r)], dn, st1) \<and>
           trace st1 = trace st @ [Fetch (Pdf_get (url t) c True)]"
proof -
  from assms obtain t due k c where w: "w = (t, due, Session_cached k c)"
    by (cases w rule: microtask.cases) auto
  obtain d r st1 where s: "send (Pdf_get (url t) c True) (awake due st) = ((d, r), st1)"
    by (cases "send (Pdf_get (url t) c True) (awake due st)") auto
  have "next_up (w # ws) = w" using assms by (simp add: next_up_def)
  with w s have "turn m (w # ws) dn st = (ws @ [(t, d, Fetching k r)], dn, st1)"
    by (simp add: turn_def resume_def)
  moreover from send_traceD [OF s] have "trace st1 = trace st @ [Fetch (Pdf_get (url t) c True)]"
    by simp
  ultimately show ?thesis using w by blast
qed

lemma drain_microtasks:
  assumes "\<forall>w\<in>set ms. microtask w" and "\<forall>w\<in>set ms. attempt_of (snd (snd w)) \<le> m"
  shows "\<exists>fs' st1 reqs. event_loop m (ms @ fs) dn st = event_loop m (fs @ fs') dn st1 \<and>
           trace st1 = trace st @ map Fetch reqs \<and> length reqs = length ms \<and>
           (\<forall>w\<in>set fs'. attempt_of (snd (snd w)) \<le> m)"
  using assms
proof (induction ms arbitrary: fs st)
  case Nil
  show ?case by (intro exI [of _ "[]"] exI [of _ st]) simp
next
  case (Cons w ms)
  from Cons.prems have mw: "microtask w" by simp
  from turn_microtask [OF mw, of m "ms @ fs" dn st] obtain t due k c d r st1 where
    w: "w = (t, due, Session_cached k c)" and
    tn: "turn m (w # ms @ fs) dn st = ((ms @ fs) @ [(t, d, Fetching k r)], dn, st1)" and
    t1: "trace st1 = trace st @ [Fetch (Pdf_get (url t) c True)]" by blast
  have step: "event_loop m ((w # ms) @ fs) dn st = event_loop m (ms @ (fs @ [(t, d, Fetching k r)])) dn st1"
    using tn by (subst event_loop.simps) simp
  from Cons.prems have "\<forall>w\<in>set ms. microtask w" "\<forall>w\<in>set ms. attempt_of (snd (snd w)) \<le> m"
    by simp_all
  from Cons.IH [OF this, of "fs @ [(t, d, Fetching k r)]" st1] obtain fs' st2 reqs where
    e: "event_loop m (ms @ fs @ [(t, d, Fetching k r)]) dn st1
          = event_loop m ((fs @ [(t, d, Fetching k r)]) @ fs') dn st2" and
    t2: "trace st2 = trace st1 @ map Fetch reqs" and len: "length reqs = length ms" and
    a: "\<forall>w\<in>set fs'. attempt_of (snd (snd w)) \<le> m" by blast
  from Cons.prems(2) w have k: "k \<le> m" by simp
  show ?case
    using step e t1 t2 len a k
    by (intro exI [of _ "(t, d, Fetching k r) # fs'"] exI [of _ st2]
          exI [of _ "Pdf_get (url t) c True # reqs"]) simp
qed

lemma flight_requests [simp]:
  "List.map_filter flight_of (map Fetch reqs) = replicate (length reqs) Sent"
  by (induction reqs) (simp_all add: List.map_filter_simps)

lemma batchPromises_flight:
  assumes "batchPromises n i idx xs st = (results, st')"
  shows "take (length xs) (List.map_filter flight_of (events_since st st')) = replicate (length xs) Sent"
proof -
  obtain ws dn st1 where l: "launch n i idx xs 3 st = ((ws, dn), st1)"
    by (cases "launch n i idx xs 3 st") auto
  obtain dn' st2 where e: "event_loop 3 ws dn st1 = (dn', st2)" by force
  from assms l e have r: "st' = st2" by (simp add: batchPromises_def)
  from launch_events [OF l] have lw: "length ws = length xs"
    and aw: "\<forall>w\<in>set ws. attempt_of (snd (snd w)) \<le> 3" by auto
  from launch_flight [OF l] obtain es1 where
    t1: "trace st1 = trace st @ es1" and
    f1: "if session_valid st
           then (\<forall>w\<in>set ws. microtask w) \<and> List.map_filter flight_of es1 = []
           else List.map_filter flight_of es1 = replicate (length xs) Sent" by auto
  show ?thesis
  proof (cases "session_valid st")
    case False
    from event_loop_events [OF e aw] obtain es2 where t2: "trace st2 = trace st1 @ es2" by blast
    have "events_since st st' = es1 @ es2" using t1 t2 r by simp
    with f1 False show ?thesis by simp
  next
    case True
    with f1 have mw: "\<forall>w\<in>set ws. microtask w" and n1: "List.map_filter flight_of es1 = []"
      by simp_all
    from drain_microtasks [OF mw aw, of "[]" dn st1] obtain fs' st3 reqs where
      d: "event_loop 3 ws dn st1 = event_loop 3 fs' dn st3" and
      t3: "trace st3 = trace st1 @ map Fetch reqs" and len: "length reqs = length ws" and
      a: "\<forall>w\<in>set fs'. attempt_of (snd (snd w)) \<le> 3" by auto
    from d e have "event_loop 3 fs' dn st3 = (dn', st2)" by simp
    from event_loop_events [OF this a] obtain es2 where t2: "trace st2 = trace st3 @ es2" by blast
    have "events_since st st' = es1 @ map Fetch reqs @ es2" using t1 t2 t3 r by simp
    with n1 len lw show ?thesis by simp
  qed
qed

section \<open>A task on its own\<close>

text \<open>
  The suspended form of the fetcher and the direct one agree: a task that no other task
  interrupts sends the requests, writes the lines and returns the value of
  \<^verbatim>\<open>generatePdfForReservation\<close>, so a batch of one reservation is the callback run from
  its first line to its last.
\<close>

lemma fetch_send:
  "fetch req st = (case send req st of ((due, reply), st1) \<Rightarrow> (reply, awake due st1))"
  by (simp add: fetch_def send_def awake_def emit_def split: list.splits)

lemma login_split:
  "login st = (case login_send st of ((due, reply), st1) \<Rightarrow> login_receive reply (awake due st1))"
  unfolding login_def login_send_def login_receive_def fetch_send Let_def
  by (auto split: prod.splits fetch_reply.splits)

lemma single_turn:
  "event_loop m [(t, due, ph)] dn st =
     (case resume t m due ph st of
        (Suspended d p, st1) \<Rightarrow> event_loop m [(t, d, p)] dn st1
      | (Settled res, st1) \<Rightarrow> (dn @ [(place t, res)], st1))"
proof -
  have nu: "next_up [(t, due, ph)] = (t, due, ph)"
    by (cases "microtask (t, due, ph)") (simp_all add: next_up_def)
  show ?thesis
    by (subst event_loop.simps)
       (simp add: turn_def nu event_loop.simps [of m "[]"] split: prod.splits outcome.splits)
qed

lemma try_attempt_parts:
  "try_attempt h r m k st = after_session h r (pdfUrl st h r) (getSessionCookies (backoff_step h r m k st))"
  unfolding try_attempt_def after_session_def after_fetch_def after_relogin_def after_retry_def Let_def
  by (simp split: prod.splits sum.splits fetch_reply.splits)

lemma carry_on_Suspended:
  "carry_on m t dn (Suspended d p, st) = carry_on m t dn (resume t m d p st)"
  by (simp add: carry_on_def single_turn split: prod.splits outcome.splits)

lemma carry_on_Settled [simp]:
  "carry_on m t dn (Settled res, st) = (dn @ [(place t, res)], st)"
  by (simp add: carry_on_def)

lemma conclude_simps [simp]:
  "conclude m t dn k (Inl err, st) = carry_on m t dn (attempt_failed t m k err st)"
  "conclude m t dn k (Inr b, st) = (dn @ [(place t, Some (result_of t (Some b)))], st)"
  by (simp_all add: conclude_def)

lemma awake_now [simp]: "awake (clock st) st = st"
  by (simp add: awake_def)

lemma finish_alone:
  "carry_on m t dn (finish t m k response st)
     = conclude m t dn k (read_pdf (htl_code (booking t)) (res_id (booking t)) response st)"
  by (cases "read_pdf (htl_code (booking t)) (res_id (booking t)) response st")
     (auto simp: finish_def split: sum.splits)

lemma sent_alone:
  assumes "\<And>d reply s. carry_on m t dn (resume t m d (ph reply) s) = conclude m t dn k (rest (reply, awake d s))"
  shows "carry_on m t dn (case send req st of ((d, reply), st1) \<Rightarrow> (Suspended d (ph reply), st1))
           = conclude m t dn k (rest (fetch req st))"
  by (cases "send req st") (auto simp: fetch_send carry_on_Suspended assms)

lemma retrying_alone:
  "carry_on m t dn (resume t m d (Retrying k reply) st)
     = conclude m t dn k (after_retry (htl_code (booking t)) (res_id (booking t)) (reply, awake d st))"
  by (cases reply) (simp_all add: resume_def after_retry_def finish_alone)

lemma logging_in_again_alone:
  "carry_on m t dn (resume t m d (Logging_in_again k reply) st)
     = conclude m t dn k (after_relogin (htl_code (booking t)) (res_id (booking t)) (url t)
         (login_receive reply (awake d st)))"
proof (cases "login_receive reply (awake d st)")
  case (Pair res st1)
  show ?thesis
  proof (cases res)
    case (Inl err)
    with Pair show ?thesis by (simp add: resume_def after_relogin_def)
  next
    case (Inr newCookies)
    with Pair show ?thesis
      by (simp add: resume_def after_relogin_def
            sent_alone [where ph = "Retrying k", OF retrying_alone])
  qed
qed

lemma login_sent_alone:
  assumes "\<And>d reply s. carry_on m t dn (resume t m d (ph reply) s)
             = conclude m t dn k (rest (login_receive reply (awake d s)))"
  shows "carry_on m t dn (case login_send st of ((d, reply), st1) \<Rightarrow> (Suspended d (ph reply), st1))
           = conclude m t dn k (rest (login st))"
  by (cases "login_send st") (auto simp: login_split carry_on_Suspended assms)

lemma fetching_alone:
  "carry_on m t dn (resume t m d (Fetching k reply) st)
     = conclude m t dn k (after_fetch (htl_code (booking t)) (res_id (booking t)) (url t)
         (reply, awake d st))"
proof (cases reply)
  case (Rejects err)
  then show ?thesis by (simp add: resume_def after_fetch_def)
next
  case (Resolves response)
  have relogin: "getSessionCookies (s\<lparr>sessionCookies := None\<rparr>) = login (s\<lparr>sessionCookies := None\<rparr>)" for s
    by (simp add: getSessionCookies_def)
  show ?thesis
    using Resolves
    by (simp add: resume_def after_fetch_def finish_alone relogin Let_def
          login_sent_alone [where ph = "Logging_in_again k", OF logging_in_again_alone])
qed

lemma session_cached_alone:
  "carry_on m t dn (resume t m d (Session_cached k c) st)
     = conclude m t dn k (after_session (htl_code (booking t)) (res_id (booking t)) (url t)
         (Inr c, awake d st))"
  by (simp add: resume_def after_session_def
        sent_alone [where ph = "Fetching k", OF fetching_alone])

lemma logging_in_alone:
  "carry_on m t dn (resume t m d (Logging_in k reply) st)
     = conclude m t dn k (after_session (htl_code (booking t)) (res_id (booking t)) (url t)
         (login_receive reply (awake d st)))"
proof (cases "login_receive reply (awake d st)")
  case (Pair res st1)
  show ?thesis
  proof (cases res)
    case (Inl err)
    with Pair show ?thesis by (simp add: resume_def after_session_def)
  next
    case (Inr cookies)
    with Pair show ?thesis
      by (simp add: resume_def after_session_def
            sent_alone [where ph = "Fetching k", OF fetching_alone])
  qed
qed

lemma look_up_session_alone:
  "carry_on m t dn (look_up_session k st)
     = conclude m t dn k (after_session (htl_code (booking t)) (res_id (booking t)) (url t)
         (getSessionCookies st))"
proof -
  have cached: "carry_on m t dn (Suspended (clock st) (Session_cached k c), st)
      = conclude m t dn k (after_session (htl_code (booking t)) (res_id (booking t)) (url t) (Inr c, st))" for c
    by (simp add: carry_on_Suspended session_cached_alone)
  note login = login_sent_alone [where ph = "Logging_in k", OF logging_in_alone]
  show ?thesis
    by (simp add: look_up_session_def getSessionCookies_def Let_def cached login
          split: option.splits)
qed

lemma backing_off_alone:
  "carry_on m t dn (resume t m d (Backing_off k) st)
     = conclude m t dn k (after_session (htl_code (booking t)) (res_id (booking t)) (url t)
         (getSessionCookies (awake d st)))"
  by (simp add: resume_def look_up_session_alone)

lemma next_attempt_alone:
  assumes "k \<le> m" and "url t = pdfUrl st (htl_code (booking t)) (res_id (booking t))"
  shows "carry_on m t dn (next_attempt t m k st)
           = conclude m t dn k (try_attempt (htl_code (booking t)) (res_id (booking t)) m k st)"
proof (cases "1 < k")
  case False
  with assms show ?thesis
    by (simp add: next_attempt_def try_attempt_parts backoff_step_def look_up_session_alone)
next
  case True
  have "awake (clock st + backoffDelay k)
          (emit (Delay (backoffDelay k))
            (emit (Console (Log_retry k m (to_string (htl_code (booking t)))
               (to_string (res_id (booking t))) (backoffDelay k))) st))
        = backoff_step (htl_code (booking t)) (res_id (booking t)) m k st"
    using True by (simp add: backoff_step_def delay_def emit_def awake_def)
  with True assms show ?thesis
    by (simp add: next_attempt_def try_attempt_parts carry_on_Suspended backing_off_alone)
qed

lemma read_pdf_env [simp]: "process_env (snd (read_pdf h r response st)) = process_env st"
  by (simp add: read_pdf_def split: sum.splits)

lemma try_attempt_env [simp]: "process_env (snd (try_attempt h r m k st)) = process_env st"
proof -
  have s: "process_env (snd (after_retry h r x)) = process_env (snd x)" for x
    by (cases x) (simp add: after_retry_def split: fetch_reply.splits)
  have l: "process_env (snd (after_relogin h r u x)) = process_env (snd x)" for u x
    by (cases x) (simp add: after_relogin_def s split: sum.splits)
  have f: "process_env (snd (after_fetch h r u x)) = process_env (snd x)" for u x
    by (cases x) (simp add: after_fetch_def l split: fetch_reply.splits)
  have a: "process_env (snd (after_session h r u x)) = process_env (snd x)" for u x
    by (cases x) (simp add: after_session_def f split: sum.splits)
  show ?thesis by (simp add: try_attempt_parts a)
qed

lemma pdfUrl_env: "process_env st' = process_env st \<Longrightarrow> pdfUrl st' h r = pdfUrl st h r"
  by (simp add: pdfUrl_def baseUrl_def)

lemma attempt_loop_alone:
  assumes "url t = pdfUrl st (htl_code (booking t)) (res_id (booking t))"
  shows "carry_on m t dn (next_attempt t m k st)
           = callback_result t dn (attempt_loop (htl_code (booking t)) (res_id (booking t)) m k st)"
  using assms
proof (induction "htl_code (booking t)" "res_id (booking t)" m k st rule: attempt_loop.induct)
  case (1 m k st)
  let ?h = "htl_code (booking t)" and ?r = "res_id (booking t)"
  show ?case
  proof (cases "k \<le> m")
    case False
    then show ?thesis
      by (simp add: next_attempt_def attempt_loop.simps callback_result_def)
  next
    case True
    obtain res st1 where ta: "try_attempt ?h ?r m k st = (res, st1)" by force
    have env: "process_env st1 = process_env st"
      using try_attempt_env [of ?h ?r m k st] ta by simp
    note step = next_attempt_alone [OF True "1.prems", of dn]
    show ?thesis
    proof (cases res)
      case (Inr b)
      with ta True step show ?thesis
        by (simp add: attempt_loop.simps callback_result_def)
    next
      case (Inl err)
      define st2 where "st2 = emit (Console (Err_attempt_failed k m (to_string ?h) (to_string ?r) (message err))) st1"
      show ?thesis
      proof (cases "k = m")
        case same: True
        with ta True Inl step show ?thesis
          by (simp add: attempt_loop.simps [of _ _ m m] callback_result_def attempt_failed_def Let_def)
      next
        case False
        have "process_env st2 = process_env st" by (simp add: st2_def env)
        from pdfUrl_env [OF this] "1.prems" have u: "url t = pdfUrl st2 ?h ?r" by simp
        from "1.hyps" [OF True ta [symmetric] Inl st2_def False u]
        have ih: "carry_on m t dn (next_attempt t m (k + 1) st2)
                    = callback_result t dn (attempt_loop ?h ?r m (k + 1) st2)" .
        have "attempt_loop ?h ?r m k st = attempt_loop ?h ?r m (k + 1) st2"
          using ta True Inl False by (subst attempt_loop.simps) (simp add: st2_def Let_def)
        moreover have "carry_on m t dn (next_attempt t m k st) = carry_on m t dn (next_attempt t m (k + 1) st2)"
          using step ta Inl False by (simp add: attempt_failed_def Let_def st2_def)
        ultimately show ?thesis using ih by simp
      qed
    qed
  qed
qed

lemma batchPromises_single:
  "batchPromises n i index [x] st =
     (case generatePdfForReservation (htl_code x) (res_id x) 3
             (emit (Console (Log_generating (to_string (res_id x)) (to_string (htl_code x))
                (i + index + 1) n)) st) of
        (Inr pdfBlob, st2) \<Rightarrow>
          ([Some \<lparr>htl_code = htl_code x, res_id = res_id x,
                   filename = to_string (htl_code x) @ ''-'' @ to_string (res_id x) @ ''.pdf'',
                   blob = pdfBlob\<rparr>], st2)
      | (Inl err, st2) \<Rightarrow>
          ([None], emit (Console (Err_gave_up (to_string (htl_code x)) (to_string (res_id x))
                      (message err))) st2))"
proof -
  define st1 where "st1 = emit (Console (Log_generating (to_string (res_id x)) (to_string (htl_code x))
                (i + index + 1) n)) st"
  define t where "t = \<lparr>place = index, booking = x, url = pdfUrl st1 (htl_code x) (res_id x)\<rparr>"
  have b: "booking t = x" "place t = index" "url t = pdfUrl st1 (htl_code (booking t)) (res_id (booking t))"
    by (simp_all add: t_def)
  obtain out st2 where na: "next_attempt t 3 1 st1 = (out, st2)" by force
  have bt: "batch_task n (i + index + 1) index x 3 st = (t, out, st2)"
    using na unfolding t_def st1_def by (simp add: batch_task_def Let_def)
  have l: "launch n i index [x] 3 st
             = (case out of Suspended due ph \<Rightarrow> (([(t, due, ph)], []), st2)
                | Settled result \<Rightarrow> (([], [(index, result)]), st2))"
    using bt b(2) by (simp split: outcome.splits)
  obtain ws dn where lw: "launch n i index [x] 3 st = ((ws, dn), st2)"
    and ev: "event_loop 3 ws dn st2 = carry_on 3 t [] (out, st2)"
    unfolding l by (cases out) (simp_all add: carry_on_def event_loop.simps [of _ "[]"] b)
  obtain res s3 where al: "attempt_loop (htl_code x) (res_id x) 3 1 st1 = (res, s3)" by force
  have co: "carry_on 3 t [] (out, st2) = callback_result t [] (res, s3)"
    using attempt_loop_alone [OF b(3), of 3 "[]" 1] na al b(1) by simp
  have bp: "batchPromises n i index [x] st
              = (case callback_result t [] (res, s3) of (done1, s) \<Rightarrow> (map snd (sort_key fst done1), s))"
    using lw ev co by (simp add: batchPromises_def)
  have g: "generatePdfForReservation (htl_code x) (res_id x) 3 st1 = (res, s3)"
    using al by (simp add: generatePdfForReservation_def)
  show ?thesis
    unfolding bp st1_def [symmetric] g
    by (cases res) (simp_all add: callback_result_def result_of_def b)
qed

section \<open>The batch loop\<close>

lemma tasks_no_announcement:
  assumes "List.map_filter step_of es = task_steps n j xs"
  shows "\<forall>f\<in>set (List.map_filter flight_of es). \<not> announcement f"
proof -
  have none: "Batch b k \<notin> set (task_steps n j xs)" for b k
    by (induction xs arbitrary: j) simp_all
  have "e \<in> set es \<Longrightarrow> flight_of e = Some (Announced k) \<Longrightarrow> False" for e k
  proof -
    assume e: "e \<in> set es" and f: "flight_of e = Some (Announced k)"
    from f obtain b where "e = Console (Log_batch b k)"
      by (cases e rule: flight_of.cases) simp_all
    with e have "Batch b k \<in> set (List.map_filter step_of es)"
      by (force simp: List.map_filter_def)
    with assms none show False by simp
  qed
  then show ?thesis
    by (auto simp: List.map_filter_def elim!: announcement.elims)
qed

lemma batch_loop_events:
  assumes "batch_loop rs i acc st = (out, st')" and "20 dvd i"
  shows "\<exists>es new. trace st' = trace st @ es \<and> out = acc @ new \<and>
           List.map_filter step_of es = batch_steps (length rs) (i div 20 + 1) (groups (drop i rs)) \<and>
           mset (List.map_filter fetched_of es) = mset (map label new) \<and>
           length (List.map_filter gave_up_of es) + length new = length rs - i \<and>
           List.map_filter progress_of es = batch_progress (i div 20 + 1) (groups (drop i rs)) \<and>
           overlapped (List.map_filter flight_of es) \<and>
           (\<forall>p\<in>set new. entry_ok p)"
  using assms
proof (induction rs i acc st arbitrary: out st' rule: batch_loop.induct)
  case (1 rs i acc st)
  show ?case
  proof (cases "i < length rs")
    case False
    with "1.prems" have "out = acc" "st' = st" by (simp_all add: batch_loop.simps)
    with False show ?thesis
      by (auto simp: groups_drop_Nil List.map_filter_simps intro!: exI [of _ "[]"])
  next
    case True
    define batch where "batch = take batchSize (drop i rs)"
    define st1 where "st1 = emit (Console (Log_batch (i div batchSize + 1) (length batch))) st"
    obtain batchResults st2 where bp: "batchPromises (length rs) i 0 batch st1 = (batchResults, st2)"
      by force
    define st3 where "st3 = (if i + batchSize < length rs then delay 200 st2 else st2)"
    have "batch_loop rs i acc st =
            (case batchPromises (length rs) i 0 batch st1 of
               (batchResults, st2) \<Rightarrow>
                 batch_loop rs (i + batchSize)
                   (acc @ map the (filter (\<lambda>result. result \<noteq> None) batchResults))
                   (if i + batchSize < length rs then delay 200 st2 else st2))"
      using True unfolding batch_def st1_def by (subst batch_loop.simps) (simp add: Let_def)
    with "1.prems"(1) bp
    have rec: "batch_loop rs (i + batchSize) (acc @ map the (filter (\<lambda>result. result \<noteq> None) batchResults)) st3 = (out, st')"
      by (simp add: st3_def)
    have dvd: "20 dvd i + batchSize" using "1.prems"(2) by (simp add: batchSize_def)
    from "1.IH" [OF True batch_def st1_def bp [symmetric] rec [unfolded st3_def] dvd, folded st3_def]
    obtain es2 new2 where
      t2: "trace st' = trace st3 @ es2" and
      o2: "out = (acc @ map the (filter (\<lambda>result. result \<noteq> None) batchResults)) @ new2" and
      s2: "List.map_filter step_of es2 = batch_steps (length rs) ((i + batchSize) div 20 + 1) (groups (drop (i + batchSize) rs))" and
      f2: "mset (List.map_filter fetched_of es2) = mset (map label new2)" and
      g2: "length (List.map_filter gave_up_of es2) + length new2 = length rs - (i + batchSize)" and
      p2: "List.map_filter progress_of es2 = batch_progress ((i + batchSize) div 20 + 1) (groups (drop (i + batchSize) rs))" and
      v2: "overlapped (List.map_filter flight_of es2)" and
      e2: "\<forall>p\<in>set new2. entry_ok p" by blast
    from batchPromises_events [OF bp] obtain es1 where
      t1: "trace st2 = trace st1 @ es1" and
      s1: "List.map_filter step_of es1 = task_steps (length rs) (i + 0 + 1) batch" and
      f1: "mset (List.map_filter fetched_of es1) = mset (map label (successes batchResults))" and
      g1: "length (List.map_filter gave_up_of es1) + length (successes batchResults) = length batch" and
      p1: "List.map_filter progress_of es1 = replicate (length batch) Begun @ replicate (length batch) Ended" and
      e1: "\<forall>p\<in>set (successes batchResults). entry_ok p" by blast
    define pause where "pause = (if i + batchSize < length rs then [Delay 200] else [])"
    have t3: "trace st3 = trace st2 @ pause" by (simp add: st3_def pause_def)
    let ?es = "[Console (Log_batch (i div batchSize + 1) (length batch))] @ es1 @ pause @ es2"
    let ?new = "successes batchResults @ new2"
    have idx: "20 * (i div 20) = i" using "1.prems"(2) by simp
    have more: "(groups (drop (i + 20) rs) = []) \<longleftrightarrow> \<not> i + 20 < length rs"
      by (auto simp: groups_Nil_iff)
    have lenb: "length batch = min 20 (length rs - i)" by (simp add: batch_def batchSize_def)
    have "trace st' = trace st @ ?es" using t1 t2 t3 by (simp add: st1_def)
    moreover have "out = acc @ ?new" using o2 by (simp add: successes_def)
    moreover have "List.map_filter step_of ?es = batch_steps (length rs) (i div 20 + 1) (groups (drop i rs))"
    proof -
      have g: "groups (drop i rs) = batch # groups (drop (i + 20) rs)"
        using True by (simp add: groups_drop batch_def batchSize_def)
      have b: "(i + batchSize) div 20 + 1 = Suc (i div 20 + 1)" by (simp add: batchSize_def)
      have s2': "List.map_filter step_of es2 = batch_steps (length rs) (Suc (i div 20 + 1)) (groups (drop (i + 20) rs))"
        using s2 b by (simp add: batchSize_def)
      have p: "List.map_filter step_of pause = (if groups (drop (i + 20) rs) = [] then [] else [Pause])"
        using more by (simp add: pause_def batchSize_def List.map_filter_simps)
      show ?thesis
        unfolding g using s1 s2' p idx by (simp add: List.map_filter_simps batchSize_def)
    qed
    moreover have "mset (List.map_filter fetched_of ?es) = mset (map label ?new)"
      using f1 f2 by (simp add: List.map_filter_simps pause_def)
    moreover have "length (List.map_filter gave_up_of ?es) + length ?new = length rs - i"
      using g1 g2 lenb True by (simp add: List.map_filter_simps pause_def batchSize_def)
    moreover have "List.map_filter progress_of ?es = batch_progress (i div 20 + 1) (groups (drop i rs))"
    proof -
      have g: "groups (drop i rs) = batch # groups (drop (i + 20) rs)"
        using True by (simp add: groups_drop batch_def batchSize_def)
      have p2': "List.map_filter progress_of es2 = batch_progress (Suc (i div 20 + 1)) (groups (drop (i + 20) rs))"
      proof -
        have "(i + batchSize) div 20 + 1 = Suc (i div 20 + 1)" by (simp add: batchSize_def)
        with p2 show ?thesis by (simp add: batchSize_def)
      qed
      show ?thesis
        unfolding g using p1 p2' by (simp add: batchSize_def pause_def)
    qed
    moreover have "overlapped (List.map_filter flight_of ?es)"
    proof -
      have e: "events_since st1 st2 = es1" using t1 by simp
      from batchPromises_flight [OF bp]
      have tk: "take (length batch) (List.map_filter flight_of es1) = replicate (length batch) Sent"
        unfolding e .
      then have "length (take (length batch) (List.map_filter flight_of es1)) = length batch"
        by simp
      then have le: "length batch \<le> length (List.map_filter flight_of es1)" by simp
      have na: "\<forall>f\<in>set (List.map_filter flight_of es1). \<not> announcement f"
        using s1 by (rule tasks_no_announcement)
      have "List.map_filter flight_of ?es
              = Announced (length batch) # List.map_filter flight_of es1 @ List.map_filter flight_of es2"
        by (simp add: List.map_filter_simps pause_def)
      with tk le v2 overlapped_append [OF na] show ?thesis by simp
    qed
    moreover have "\<forall>p\<in>set ?new. entry_ok p" using e1 e2 by auto
    ultimately show ?thesis by blast
  qed
qed

lemma batch_loop_run:
  "\<exists>es. trace (snd (batch_loop rs 0 [] st)) = trace st @ es \<and>
         List.map_filter step_of es = batch_steps (length rs) 1 (groups rs) \<and>
         List.map_filter progress_of es = batch_progress 1 (groups rs) \<and>
         overlapped (List.map_filter flight_of es)"
proof -
  obtain out st' where b: "batch_loop rs 0 [] st = (out, st')" by force
  from batch_loop_events [OF b] show ?thesis using b by auto
qed

section \<open>The handler\<close>

lemma validate_item_iff: "(\<exists>x. validate_item item = Inr x) \<longleftrightarrow> valid_item item"
  by (cases item) (auto simp: validate_item_def invalid_structure_def split: option.splits)

lemma validate_all_length: "validate_all items = Inr rs \<Longrightarrow> length rs = length items"
  by (induction items arbitrary: rs) (auto split: sum.splits)

lemma validate_all_iff: "(\<exists>rs. validate_all items = Inr rs) \<longleftrightarrow> list_all valid_item items"
proof (induction items)
  case Nil
  then show ?case by simp
next
  case (Cons item items)
  show ?case
  proof (cases "validate_item item")
    case (Inl e)
    with validate_item_iff [of item] show ?thesis by auto
  next
    case (Inr x)
    with validate_item_iff [of item] Cons.IH show ?thesis
      by (auto split: sum.splits)
  qed
qed

lemma fold_zip_file:
  "fold (\<lambda>result. zip_file (filename result) (blob result)) ps z = z @ map (\<lambda>p. (filename p, blob p)) ps"
  by (induction ps arbitrary: z) (simp_all add: zip_file_def)

lemma POST_valid:
  assumes "get_prop body ''reservationIds'' = Inr (Some (JArr items))"
      and "validate_all items = Inr rs"
      and "POST (Inr body) st = (resp, st')"
  shows "\<exists>es new. trace st' = trace st @ es \<and>
           List.map_filter step_of es = batch_steps (length rs) 1 (groups rs) \<and>
           mset (List.map_filter fetched_of es) = mset (map label new) \<and>
           length (List.map_filter gave_up_of es) + length new = length rs \<and>
           List.map_filter progress_of es = batch_progress 1 (groups rs) \<and>
           (\<forall>p\<in>set new. entry_ok p) \<and>
           resp = (if new = [] then NextResponse_json ''Failed to fetch any PDFs'' 500
                   else NextResponse_zip (map (\<lambda>p. (filename p, blob p)) new) 200
                          (zip_headers (length new) (length rs - length new)))"
proof -
  define st0 where "st0 = emit (Console (Log_processing (length rs))) st"
  obtain out st1 where bl: "batch_loop rs 0 [] st0 = (out, st1)" by force
  from batch_loop_events [OF bl] obtain es new where
    t: "trace st1 = trace st0 @ es" and o: "out = new" and
    s: "List.map_filter step_of es = batch_steps (length rs) 1 (groups rs)" and
    f: "mset (List.map_filter fetched_of es) = mset (map label new)" and
    g: "length (List.map_filter gave_up_of es) + length new = length rs" and
    pg: "List.map_filter progress_of es = batch_progress 1 (groups rs)" and
    e: "\<forall>p\<in>set new. entry_ok p" by auto
  define st2 where "st2 = emit (Console (Log_complete (length new) (length rs - length new) (length rs))) st1"
  from assms bl o have r: "st' = st2"
    "resp = (if new = [] then NextResponse_json ''Failed to fetch any PDFs'' 500
                   else NextResponse_zip (map (\<lambda>p. (filename p, blob p)) new) 200
                          (zip_headers (length new) (length rs - length new)))"
    by (auto simp: POST_def st0_def [symmetric] Let_def st2_def fold_zip_file zip_headers_def
          split: if_splits)
  let ?es = "[Console (Log_processing (length rs))] @ es @ [Console (Log_complete (length new) (length rs - length new) (length rs))]"
  have "trace st' = trace st @ ?es" using t r by (simp add: st2_def st0_def)
  moreover have "List.map_filter step_of ?es = batch_steps (length rs) 1 (groups rs)"
    using s by (simp add: List.map_filter_simps)
  moreover have "mset (List.map_filter fetched_of ?es) = mset (map label new)"
    using f by (simp add: List.map_filter_simps)
  moreover have "length (List.map_filter gave_up_of ?es) + length new = length rs"
    using g by (simp add: List.map_filter_simps)
  moreover have "List.map_filter progress_of ?es = batch_progress 1 (groups rs)"
    using pg by (simp add: List.map_filter_simps)
  ultimately show ?thesis using e r(2) by blast
qed

lemma POST_zip_valid:
  assumes "POST req st = (NextResponse_zip entries code headers, st')"
  shows "\<exists>body items rs. req = Inr body \<and> get_prop body ''reservationIds'' = Inr (Some (JArr items))
            \<and> validate_all items = Inr rs"
  using assms unfolding POST_def outer_catch_def Let_def
  by (auto split: sum.splits option.splits json.splits prod.splits if_splits)

lemma POST_valid_run:
  assumes "map_of kvs ''reservationIds'' = Some (JArr items)" and "list_all valid_item items"
  shows "\<exists>new. mset (List.map_filter fetched_of (events_since st (snd (POST (Inr (JObj kvs)) st)))) = mset (map label new) \<and>
           length (List.map_filter gave_up_of (events_since st (snd (POST (Inr (JObj kvs)) st))))
             + length new = length items \<and>
           (\<forall>p\<in>set new. entry_ok p) \<and>
           fst (POST (Inr (JObj kvs)) st)
             = (if new = [] then NextResponse_json ''Failed to fetch any PDFs'' 500
                else NextResponse_zip (map (\<lambda>p. (filename p, blob p)) new) 200
                       (zip_headers (length new) (length items - length new)))"
proof -
  from assms(2) validate_all_iff [of items] obtain rs where v: "validate_all items = Inr rs"
    by blast
  have gp: "get_prop (JObj kvs) ''reservationIds'' = Inr (Some (JArr items))"
    using assms(1) by simp
  obtain resp st' where p: "POST (Inr (JObj kvs)) st = (resp, st')" by force
  from POST_valid [OF gp v p] obtain es new where
    t: "trace st' = trace st @ es" and
    f: "mset (List.map_filter fetched_of es) = mset (map label new)" and
    g: "length (List.map_filter gave_up_of es) + length new = length rs" and
    e: "\<forall>p\<in>set new. entry_ok p" and
    r: "resp = (if new = [] then NextResponse_json ''Failed to fetch any PDFs'' 500
                else NextResponse_zip (map (\<lambda>p. (filename p, blob p)) new) 200
                       (zip_headers (length new) (length rs - length new)))" by blast
  have es: "events_since st (snd (POST (Inr (JObj kvs)) st)) = es"
    using t p by simp
  have len: "length rs = length items" by (rule validate_all_length [OF v])
  show ?thesis
    unfolding es using f g e r p len by (intro exI [of _ new]) simp
qed

lemma entry_names:
  "\<forall>p\<in>set new. entry_ok p \<Longrightarrow>
     map (\<lambda>p. fst (filename p, blob p)) new = map (\<lambda>(h, r). h @ ''-'' @ r @ ''.pdf'') (map label new)"
  by (induction new) (auto simp: entry_ok_def label_def)

lemma POST_zip_entries:
  assumes "fst (POST req st) = NextResponse_zip entries code headers"
  shows "\<forall>(name, data)\<in>set entries. \<exists>d. data = Some d \<and> take 4 d = ''%PDF''"
proof -
  obtain st' where p: "POST req st = (NextResponse_zip entries code headers, st')"
    using assms by (cases "POST req st") simp
  from POST_zip_valid [OF p] obtain body items rs where
    req: "req = Inr body" and gp: "get_prop body ''reservationIds'' = Inr (Some (JArr items))" and
    v: "validate_all items = Inr rs" by blast
  from POST_valid [OF gp v p [unfolded req]] obtain new where
    e: "\<forall>p\<in>set new. entry_ok p" and
    r: "NextResponse_zip entries code headers
          = (if new = [] then NextResponse_json ''Failed to fetch any PDFs'' 500
             else NextResponse_zip (map (\<lambda>p. (filename p, blob p)) new) 200
                    (zip_headers (length new) (length rs - length new)))" by blast
  from r have "entries = map (\<lambda>p. (filename p, blob p)) new" by (auto split: if_splits)
  with e show ?thesis by (auto simp: entry_ok_def isPDF_iff)
qed

lemma POST_rejects_invalid:
  assumes "body \<noteq> JNull"
      and "\<not> (\<exists>items. get_prop body ''reservationIds'' = Inr (Some (JArr items))
               \<and> list_all valid_item items)"
  shows "\<exists>msg. fst (POST (Inr body) st) = NextResponse_json msg 400"
    and "List.map_filter request_of (events_since st (snd (POST (Inr body) st))) = []"
proof -
  have gp: "\<exists>v. get_prop body ''reservationIds'' = Inr v"
    using assms(1) by (cases body) simp_all
  then obtain v where v: "get_prop body ''reservationIds'' = Inr v" by blast
  show "\<exists>msg. fst (POST (Inr body) st) = NextResponse_json msg 400"
  proof (cases "\<exists>items. v = Some (JArr items)")
    case False
    with v show ?thesis
      by (auto simp: POST_def split: option.splits json.splits)
  next
    case True
    then obtain items where i: "v = Some (JArr items)" by blast
    with assms(2) v have "\<not> list_all valid_item items" by simp
    with validate_all_iff [of items] obtain err where "validate_all items = Inl err"
      by (cases "validate_all items") auto
    with v i show ?thesis by (simp add: POST_def)
  qed
  show "List.map_filter request_of (events_since st (snd (POST (Inr body) st))) = []"
  proof (cases "\<exists>items. v = Some (JArr items)")
    case False
    with v show ?thesis
      by (auto simp: POST_def events_since_def split: option.splits json.splits)
  next
    case True
    then obtain items where i: "v = Some (JArr items)" by blast
    with assms(2) v have "\<not> list_all valid_item items" by simp
    with validate_all_iff [of items] obtain err where "validate_all items = Inl err"
      by (cases "validate_all items") auto
    with v i show ?thesis by (simp add: POST_def events_since_def)
  qed
qed

section \<open>Runs on the example inputs\<close>

text \<open>The model is run on the example inputs by unfolding its definitions.\<close>

lemmas example_defs = example_env_def example_response_def fresh_state_def logged_in_state_def
  login_reply_def pdf_reply_def html_reply_def example_item_def example_body_def
  example_body2_def server_error_reply_def expired_reply_def temporary_redirect_reply_def
  moved_reply_def empty_cookie_reply_def no_cookie_reply_def

lemmas run_defs = POST_def batch_loop.simps batchSize_def
  generatePdfForReservation_def attempt_loop.simps try_attempt_def backoff_step_def
  getSessionCookies_def login_def fetch_def emit_def delay_def read_pdf_def isPDF_def
  validate_item_def baseUrl_def pdfUrl_def or_else_def cookie_header_def ok_def
  login_redirect_def Let_def zip_file_def http_error_def backoffDelay_def outer_catch_def

lemmas task_defs = batchPromises_def batch_task_def next_attempt_def look_up_session_def
  login_send_def login_receive_def send_def awake_def resume_def attempt_failed_def finish_def
  result_of_def event_loop.simps turn_def next_up_def due_time_def

lemma example_retry_run:
  "fst (generatePdfForReservation (JStr ''H1'') (JStr ''99'') 3
          (fresh_state [login_reply, html_reply, pdf_reply])) = Inr (Some ''%PDF-1.4'')"
  "List.map_filter mark_of (events_since (fresh_state [login_reply, html_reply, pdf_reply])
      (snd (generatePdfForReservation (JStr ''H1'') (JStr ''99'') 3
          (fresh_state [login_reply, html_reply, pdf_reply]))))
    = [Failed 1 ''Response is not a valid PDF (likely HTML error page)'', Slept 2000, Fetched]"
  "List.map_filter failure_of (events_since (fresh_state [login_reply, html_reply, pdf_reply])
      (snd (generatePdfForReservation (JStr ''H1'') (JStr ''99'') 3
          (fresh_state [login_reply, html_reply, pdf_reply]))))
    = [''Response is not a valid PDF (likely HTML error page)'']"
  by (simp_all add: run_defs example_defs events_since_def List.map_filter_simps)

lemma example_redirect_run:
  "fst (try_attempt (JStr ''H1'') (JStr ''99'') 3 1
          (logged_in_state [expired_reply, login_reply, pdf_reply])) = Inr ''%PDF-1.4''"
  "List.map_filter request_of (events_since (logged_in_state [expired_reply, login_reply, pdf_reply])
     (snd (try_attempt (JStr ''H1'') (JStr ''99'') 3 1
          (logged_in_state [expired_reply, login_reply, pdf_reply]))))
    = [Pdf_get ''https://pms.example/res/print.cfm?htl_code=H1&res_id=99&download''
         ''JSESSIONID=abc; cmp=7'' True,
       Login_post ''https://pms.example/login/login'' ''ACME'' ''user'' ''secret'',
       Pdf_get ''https://pms.example/res/print.cfm?htl_code=H1&res_id=99&download''
         ''JSESSIONID=abc; cmp=7'' False]"
  by (simp_all add: run_defs example_defs events_since_def List.map_filter_simps)

lemma example_server_error:
  "fst (try_attempt (JStr ''H1'') (JStr ''99'') 3 1 (logged_in_state [server_error_reply]))
     = Inl (Error ''HTTP 500: Internal Server Error'')"
  by (simp add: run_defs example_defs show_nat.simps digit_char_def)

lemma example_generate:
  "fst (generatePdfForReservation (JStr ''H1'') (JStr ''99'') 3 (fresh_state [login_reply, pdf_reply]))
     = Inr (Some ''%PDF-1.4'')"
  by (simp add: run_defs example_defs)

lemma example_post_two_logins:
  "fst (POST (Inr example_body2) (fresh_state [login_reply, login_reply, pdf_reply]))
     = NextResponse_zip [(''H1-99.pdf'', Some ''%PDF-1.4'')] 200 (zip_headers 1 1)"
  "List.map_filter fetched_of (events_since (fresh_state [login_reply, login_reply, pdf_reply])
     (snd (POST (Inr example_body2) (fresh_state [login_reply, login_reply, pdf_reply]))))
     = [(''H1'', ''99'')]"
  "List.map_filter gave_up_of (events_since (fresh_state [login_reply, login_reply, pdf_reply])
     (snd (POST (Inr example_body2) (fresh_state [login_reply, login_reply, pdf_reply]))))
     = [(''H2'', ''7'')]"
  by (simp_all add: run_defs task_defs example_defs zip_headers_def events_since_def)

lemma example_post_lost_login:
  "fst (POST (Inr example_body2) (fresh_state [login_reply, pdf_reply]))
     = NextResponse_json ''Failed to fetch any PDFs'' 500"
  "List.map_filter fetched_of (events_since (fresh_state [login_reply, pdf_reply])
     (snd (POST (Inr example_body2) (fresh_state [login_reply, pdf_reply])))) = []"
  "List.map_filter request_of (events_since (fresh_state [login_reply, pdf_reply])
     (snd (POST (Inr example_body2) (fresh_state [login_reply, pdf_reply]))))
     = [Login_post ''https://pms.example/login/login'' ''ACME'' ''user'' ''secret'',
        Login_post ''https://pms.example/login/login'' ''ACME'' ''user'' ''secret'',
        Pdf_get ''https://pms.example/res/print.cfm?htl_code=H1&res_id=99&download''
          ''JSESSIONID=abc; cmp=7'' True,
        Pdf_get ''https://pms.example/res/print.cfm?htl_code=H1&res_id=99&download''
          ''JSESSIONID=abc; cmp=7'' True,
        Pdf_get ''https://pms.example/res/print.cfm?htl_code=H2&res_id=7&download''
          ''JSESSIONID=abc; cmp=7'' True,
        Pdf_get ''https://pms.example/res/print.cfm?htl_code=H1&res_id=99&download''
          ''JSESSIONID=abc; cmp=7'' True,
        Pdf_get ''https://pms.example/res/print.cfm?htl_code=H2&res_id=7&download''
          ''JSESSIONID=abc; cmp=7'' True]"
  by (simp_all add: run_defs task_defs example_defs events_since_def)

lemma example_post_second_task:
  "fst (POST (Inr example_body2) (logged_in_state [html_reply, pdf_reply]))
     = NextResponse_zip [(''H2-7.pdf'', Some ''%PDF-1.4'')] 200 (zip_headers 1 1)"
  "List.map_filter fetched_of (events_since (logged_in_state [html_reply, pdf_reply])
     (snd (POST (Inr example_body2) (logged_in_state [html_reply, pdf_reply])))) = [(''H2'', ''7'')]"
  "List.map_filter gave_up_of (events_since (logged_in_state [html_reply, pdf_reply])
     (snd (POST (Inr example_body2) (logged_in_state [html_reply, pdf_reply])))) = [(''H1'', ''99'')]"
  by (simp_all add: run_defs task_defs example_defs zip_headers_def events_since_def)

section \<open>The claims\<close>

subsection \<open>C1: the archive and the count headers\<close>



subsection \<open>C2: the retry policy\<close>



subsection \<open>C3: recovery from a login redirect\<close>




subsection \<open>C4: responses that are not successful\<close>




subsection \<open>C5: invalid requests\<close>

text \<open>
  Claim C5 asks for a client-error response whenever the body does not decode to an object
  with an array \<^verbatim>\<open>reservationIds\<close>. The handler answers 500 instead when the body is the
  JSON value \<^verbatim>\<open>null\<close>, and when the body is not JSON at all: both errors are thrown before
  the validation and end in the outer \<^verbatim>\<open>catch\<close>.
\<close>

theorem POST_undecodable_body:
  "fst (POST (Inr JNull) st)
     = NextResponse_json ''Cannot read properties of null (reading reservationIds)'' 500
   \<and> fst (POST (Inl (SyntaxError msg)) st) = NextResponse_json msg 500"
  by (simp add: POST_def outer_catch_def)

subsection \<open>C6: batches\<close>



subsection \<open>C7: the session cache\<close>




subsection \<open>C8: login\<close>



subsection \<open>C9: no document at all\<close>



subsection \<open>C10: the PDF signature\<close>

text \<open>
  Claim C10. \<^verbatim>\<open>isPDF\<close> accepts a buffer exactly when it has at least 4 bytes and the first
  four are \<^verbatim>\<open>%PDF\<close>; a buffer of fewer than 4 bytes, the empty one included, is rejected.
  Every buffer \<^verbatim>\<open>generatePdfForReservation\<close> returns starts with \<^verbatim>\<open>%PDF\<close>, and so does the
  content of every entry of an archive the handler returns, however the tasks of a batch
  interleave.
\<close>

theorem isPDF_signature:
  "(isPDF b \<longleftrightarrow> 4 \<le> length b \<and> take 4 b = ''%PDF'')
   \<and> (length short < 4 \<longrightarrow> \<not> isPDF short)
   \<and> \<not> isPDF []
   \<and> (fst (generatePdfForReservation h r m st) = Inr (Some buf) \<longrightarrow> take 4 buf = ''%PDF'')
   \<and> (fst (POST req st2) = NextResponse_zip entries code headers \<longrightarrow>
        (\<forall>(name, data)\<in>set entries. \<exists>d. data = Some d \<and> take 4 d = ''%PDF''))"
  using generate_isPDF [of h r m st buf] POST_zip_entries [of req st2 entries code headers]
  by (auto simp: isPDF_iff)

theorem isPDF_signature_witness:
  "isPDF ''%PDF-1.4''
   \<and> length ''%PD'' < 4 \<and> \<not> isPDF ''%PD''
   \<and> fst (generatePdfForReservation (JStr ''H1'') (JStr ''99'') 3
            (fresh_state [login_reply, pdf_reply])) = Inr (Some ''%PDF-1.4'')
   \<and> take 4 ''%PDF-1.4'' = ''%PDF''
   \<and> fst (POST (Inr example_body2) (logged_in_state [html_reply, pdf_reply]))
       = NextResponse_zip [(''H2-7.pdf'', Some ''%PDF-1.4'')] 200 (zip_headers 1 1)
   \<and> snd (hd [(''H2-7.pdf'', Some ''%PDF-1.4'')]) = Some ''%PDF-1.4''"
proof -
  note t = isPDF_signature [of "''%PDF-1.4''" "''%PD''" "JStr ''H1''" "JStr ''99''" 3
      "fresh_state [login_reply, pdf_reply]" "''%PDF-1.4''" "Inr example_body2"
      "logged_in_state [html_reply, pdf_reply]" "[(''H2-7.pdf'', Some ''%PDF-1.4'')]" 200
      "zip_headers 1 1"]
  from t have "isPDF ''%PDF-1.4''" "\<not> isPDF ''%PD''" by simp_all
  then show ?thesis using example_generate example_post_second_task(1) by simp
qed

end
